theory Spec2Isabelle
  imports Complex_Main "HOL-Library.Multiset"
begin

section \<open>JavaScript strings and character classes\<close>

text \<open>
  A JavaScript string is modelled as an Isabelle \<open>string\<close>: one \<open>char\<close> per code unit,
  for code units below 256.  The character classes are those of ECMAScript regular
  expressions without the \<open>u\<close> and \<open>i\<close> flags, cut to that range.
\<close>

definition code :: "char \<Rightarrow> nat" where
  "code c = of_char c"

definition isWord :: "char \<Rightarrow> bool" where
  "isWord c = ((48 \<le> code c \<and> code c \<le> 57) \<or> (65 \<le> code c \<and> code c \<le> 90)
      \<or> code c = 95 \<or> (97 \<le> code c \<and> code c \<le> 122))"

definition isDigit :: "char \<Rightarrow> bool" where
  "isDigit c = (48 \<le> code c \<and> code c \<le> 57)"

definition isLineTerminator :: "char \<Rightarrow> bool" where
  "isLineTerminator c = (code c = 10 \<or> code c = 13)"

definition isSpace :: "char \<Rightarrow> bool" where
  "isSpace c = ((9 \<le> code c \<and> code c \<le> 13) \<or> code c = 32 \<or> code c = 160)"

section \<open>Regular expressions\<close>

datatype cset = Ch char | WordC | DigitC | SpaceC | NonSpaceC

fun inCset :: "cset \<Rightarrow> char \<Rightarrow> bool" where
  "inCset (Ch d) c = (c = d)"
| "inCset WordC c = isWord c"
| "inCset DigitC c = isDigit c"
| "inCset SpaceC c = isSpace c"
| "inCset NonSpaceC c = (\<not> isSpace c)"

definition inClass :: "cset list \<Rightarrow> char \<Rightarrow> bool" where
  "inClass cs c = list_ex (\<lambda>m. inCset m c) cs"

datatype re =
    Lit string
  | OneOf "cset list"
  | NoneOf "cset list"
  | AnyCh
  | Seq re re
  | Alt re re
  | Star re
  | StarLazy re
  | Group nat re
  | Bol
  | Eol
  | NotBehind "cset list"
  | NotAhead "cset list"

definition Plus :: "re \<Rightarrow> re" where
  "Plus r = Seq r (Star r)"

definition Opt :: "re \<Rightarrow> re" where
  "Opt r = Alt r (Lit [])"

definition Cat :: "re list \<Rightarrow> re" where
  "Cat rs = foldr Seq rs (Lit [])"

record mstate =
  prev :: "char option"
  rest :: string
  caps :: "(nat \<times> string) list"

definition consumed :: "mstate \<Rightarrow> mstate \<Rightarrow> string" where
  "consumed s e = take (length (rest s) - length (rest e)) (rest s)"

type_synonym cont = "mstate \<Rightarrow> mstate option"

fun star :: "nat \<Rightarrow> (cont \<Rightarrow> cont) \<Rightarrow> cont \<Rightarrow> cont" where
  "star 0 f k s = k s"
| "star (Suc n) f k s =
     (case f (\<lambda>e. if length (rest e) < length (rest s) then star n f k e else None) s of
        Some r \<Rightarrow> Some r
      | None \<Rightarrow> k s)"

fun starLazy :: "nat \<Rightarrow> (cont \<Rightarrow> cont) \<Rightarrow> cont \<Rightarrow> cont" where
  "starLazy 0 f k s = k s"
| "starLazy (Suc n) f k s =
     (case k s of
        Some r \<Rightarrow> Some r
      | None \<Rightarrow> f (\<lambda>e. if length (rest e) < length (rest s) then starLazy n f k e else None) s)"

primrec matchRe :: "bool \<Rightarrow> re \<Rightarrow> cont \<Rightarrow> cont" where
  "matchRe ml (Lit w) k s =
     (if take (length w) (rest s) = w
      then k (s\<lparr>prev := (if w = [] then prev s else Some (last w)), rest := drop (length w) (rest s)\<rparr>)
      else None)"
| "matchRe ml (OneOf cs) k s =
     (case rest s of
        [] \<Rightarrow> None
      | c # r \<Rightarrow> if inClass cs c then k (s\<lparr>prev := Some c, rest := r\<rparr>) else None)"
| "matchRe ml (NoneOf cs) k s =
     (case rest s of
        [] \<Rightarrow> None
      | c # r \<Rightarrow> if inClass cs c then None else k (s\<lparr>prev := Some c, rest := r\<rparr>))"
| "matchRe ml AnyCh k s =
     (case rest s of
        [] \<Rightarrow> None
      | c # r \<Rightarrow> if isLineTerminator c then None else k (s\<lparr>prev := Some c, rest := r\<rparr>))"
| "matchRe ml (Seq a b) k s = matchRe ml a (matchRe ml b k) s"
| "matchRe ml (Alt a b) k s =
     (case matchRe ml a k s of Some r \<Rightarrow> Some r | None \<Rightarrow> matchRe ml b k s)"
| "matchRe ml (Star a) k s = star (length (rest s)) (matchRe ml a) k s"
| "matchRe ml (StarLazy a) k s = starLazy (length (rest s)) (matchRe ml a) k s"
| "matchRe ml (Group i a) k s =
     matchRe ml a (\<lambda>e. k (e\<lparr>caps := (i, consumed s e) # caps e\<rparr>)) s"
| "matchRe ml Bol k s =
     (case prev s of
        None \<Rightarrow> k s
      | Some c \<Rightarrow> if ml \<and> isLineTerminator c then k s else None)"
| "matchRe ml Eol k s =
     (case rest s of
        [] \<Rightarrow> k s
      | c # r \<Rightarrow> if ml \<and> isLineTerminator c then k s else None)"
| "matchRe ml (NotBehind cs) k s =
     (case prev s of
        None \<Rightarrow> k s
      | Some c \<Rightarrow> if inClass cs c then None else k s)"
| "matchRe ml (NotAhead cs) k s =
     (case rest s of
        [] \<Rightarrow> k s
      | c # r \<Rightarrow> if inClass cs c then None else k s)"

fun scan :: "bool \<Rightarrow> re \<Rightarrow> char option \<Rightarrow> string \<Rightarrow> (string \<times> mstate) option" where
  "scan ml r p [] =
     (case matchRe ml r Some \<lparr>prev = p, rest = [], caps = []\<rparr> of
        None \<Rightarrow> None
      | Some e \<Rightarrow> Some ([], e))"
| "scan ml r p (c # cs) =
     (case matchRe ml r Some \<lparr>prev = p, rest = c # cs, caps = []\<rparr> of
        Some e \<Rightarrow> Some ([], e)
      | None \<Rightarrow>
          (case scan ml r (Some c) cs of
             None \<Rightarrow> None
           | Some (sk, e) \<Rightarrow> Some (c # sk, e)))"

record rmatch =
  skipped :: string
  whole :: string
  groups :: "(nat \<times> string) list"
  tail :: mstate

definition exec :: "bool \<Rightarrow> re \<Rightarrow> mstate \<Rightarrow> rmatch option" where
  "exec ml r s =
     (case scan ml r (prev s) (rest s) of
        None \<Rightarrow> None
      | Some (sk, e) \<Rightarrow>
          Some \<lparr>skipped = sk,
                whole = take (length (rest s) - length sk - length (rest e)) (drop (length sk) (rest s)),
                groups = caps e,
                tail = e\<rparr>)"

definition capture :: "rmatch \<Rightarrow> nat \<Rightarrow> string option" where
  "capture m i = map_of (groups m) i"

definition start :: "string \<Rightarrow> mstate" where
  "start s = \<lparr>prev = None, rest = s, caps = []\<rparr>"

datatype failure = Hangs | TypeError

function execLoop :: "bool \<Rightarrow> re \<Rightarrow> mstate \<Rightarrow> failure + rmatch list" where
  "execLoop ml r s =
     (case exec ml r s of
        None \<Rightarrow> Inr []
      | Some m \<Rightarrow>
          if length (rest (tail m)) < length (rest s)
          then (case execLoop ml r (tail m) of Inl e \<Rightarrow> Inl e | Inr ms \<Rightarrow> Inr (m # ms))
          else Inl Hangs)"
  by pat_completeness auto
termination
  by (relation "measure (\<lambda>(ml, r, s). length (rest s))") auto

declare execLoop.simps [simp del]

fun minLen :: "re \<Rightarrow> nat" where
  "minLen (Lit w) = length w"
| "minLen (OneOf cs) = 1"
| "minLen (NoneOf cs) = 1"
| "minLen AnyCh = 1"
| "minLen (Seq a b) = minLen a + minLen b"
| "minLen (Alt a b) = min (minLen a) (minLen b)"
| "minLen (Group i a) = minLen a"
| "minLen r = 0"

lemma Cat_Nil: "Cat [] = Lit []"
  by (simp add: Cat_def)

lemma Cat_Cons: "Cat (x # xs) = Seq x (Cat xs)"
  by (simp add: Cat_def)

lemma star_len:
  assumes f: "\<And>k' s' x'. (\<And>e y. k' e = Some y \<Longrightarrow> length (rest y) + d \<le> length (rest e))
                \<Longrightarrow> f k' s' = Some x' \<Longrightarrow> length (rest x') + d \<le> length (rest s')"
    and k: "\<And>e y. k e = Some y \<Longrightarrow> length (rest y) + d \<le> length (rest e)"
  shows "star n f k s = Some x \<Longrightarrow> length (rest x) + d \<le> length (rest s)"
proof (induction n arbitrary: s x)
  case 0
  then show ?case using k by simp
next
  case (Suc n)
  let ?k' = "\<lambda>e. if length (rest e) < length (rest s) then star n f k e else None"
  have k': "\<And>e y. ?k' e = Some y \<Longrightarrow> length (rest y) + d \<le> length (rest e)"
    using Suc.IH by (auto split: if_splits)
  show ?case
  proof (cases "f ?k' s")
    case None
    with Suc.prems have "k s = Some x" by simp
    then show ?thesis by (rule k)
  next
    case (Some y)
    with Suc.prems have "f ?k' s = Some x" by simp
    with k' show ?thesis by (rule f [where k' = "?k'"])
  qed
qed

lemma starLazy_len:
  assumes f: "\<And>k' s' x'. (\<And>e y. k' e = Some y \<Longrightarrow> length (rest y) + d \<le> length (rest e))
                \<Longrightarrow> f k' s' = Some x' \<Longrightarrow> length (rest x') + d \<le> length (rest s')"
    and k: "\<And>e y. k e = Some y \<Longrightarrow> length (rest y) + d \<le> length (rest e)"
  shows "starLazy n f k s = Some x \<Longrightarrow> length (rest x) + d \<le> length (rest s)"
proof (induction n arbitrary: s x)
  case 0
  then show ?case using k by simp
next
  case (Suc n)
  let ?k' = "\<lambda>e. if length (rest e) < length (rest s) then starLazy n f k e else None"
  have k': "\<And>e y. ?k' e = Some y \<Longrightarrow> length (rest y) + d \<le> length (rest e)"
    using Suc.IH by (auto split: if_splits)
  show ?case
  proof (cases "k s")
    case None
    with Suc.prems have "f ?k' s = Some x" by simp
    with k' show ?thesis by (rule f [where k' = "?k'"])
  next
    case (Some y)
    with Suc.prems have "k s = Some x" by simp
    then show ?thesis by (rule k)
  qed
qed

lemma matchRe_len:
  assumes "\<And>e y. k e = Some y \<Longrightarrow> length (rest y) + d \<le> length (rest e)"
  shows "matchRe ml r k s = Some x \<Longrightarrow> length (rest x) + d + minLen r \<le> length (rest s)"
  using assms
proof (induction r arbitrary: k s x d)
  case (Lit w)
  from Lit.prems(1) have tk: "take (length w) (rest s) = w"
    and ks: "k (s\<lparr>prev := (if w = [] then prev s else Some (last w)), rest := drop (length w) (rest s)\<rparr>) = Some x"
    by (auto split: if_splits)
  from Lit.prems(2) [OF ks] have "length (rest x) + d \<le> length (rest s) - length w" by simp
  moreover have "length (take (length w) (rest s)) \<le> length (rest s)" by simp
  with tk have "length w \<le> length (rest s)" by simp
  ultimately show ?case by simp
next
  case (OneOf cs)
  then show ?case by (fastforce split: list.splits if_splits)
next
  case (NoneOf cs)
  then show ?case by (fastforce split: list.splits if_splits)
next
  case AnyCh
  then show ?case by (fastforce split: list.splits if_splits)
next
  case (Seq a b)
  have kb: "\<And>e y. matchRe ml b k e = Some y \<Longrightarrow> length (rest y) + (d + minLen b) \<le> length (rest e)"
    using Seq.IH(2) [OF _ Seq.prems(2)] by (simp add: add.assoc)
  from Seq.prems(1) have "matchRe ml a (matchRe ml b k) s = Some x" by simp
  from Seq.IH(1) [OF this kb] show ?case by simp
next
  case (Alt a b)
  show ?case
  proof (cases "matchRe ml a k s")
    case None
    with Alt.prems(1) have "matchRe ml b k s = Some x" by simp
    from Alt.IH(2) [OF this Alt.prems(2)] show ?thesis by simp
  next
    case (Some y)
    with Alt.prems(1) have "matchRe ml a k s = Some x" by simp
    from Alt.IH(1) [OF this Alt.prems(2)] show ?thesis by simp
  qed
next
  case (Star a)
  have "length (rest x) + d \<le> length (rest s)"
  proof (rule star_len [where f = "matchRe ml a" and k = k and n = "length (rest s)"])
    show "star (length (rest s)) (matchRe ml a) k s = Some x"
      using Star.prems(1) by simp
  next
    fix e y
    assume "k e = Some y"
    then show "length (rest y) + d \<le> length (rest e)" by (rule Star.prems(2))
  next
    fix k' s' x'
    assume kk: "\<And>e y. k' e = Some y \<Longrightarrow> length (rest y) + d \<le> length (rest e)"
      and mm: "matchRe ml a k' s' = Some x'"
    from Star.IH [OF mm kk] show "length (rest x') + d \<le> length (rest s')" by simp
  qed
  then show ?case by simp
next
  case (StarLazy a)
  have "length (rest x) + d \<le> length (rest s)"
  proof (rule starLazy_len [where f = "matchRe ml a" and k = k and n = "length (rest s)"])
    show "starLazy (length (rest s)) (matchRe ml a) k s = Some x"
      using StarLazy.prems(1) by simp
  next
    fix e y
    assume "k e = Some y"
    then show "length (rest y) + d \<le> length (rest e)" by (rule StarLazy.prems(2))
  next
    fix k' s' x'
    assume kk: "\<And>e y. k' e = Some y \<Longrightarrow> length (rest y) + d \<le> length (rest e)"
      and mm: "matchRe ml a k' s' = Some x'"
    from StarLazy.IH [OF mm kk] show "length (rest x') + d \<le> length (rest s')" by simp
  qed
  then show ?case by simp
next
  case (Group i a)
  let ?k' = "\<lambda>e. k (e\<lparr>caps := (i, consumed s e) # caps e\<rparr>)"
  have k': "\<And>e y. ?k' e = Some y \<Longrightarrow> length (rest y) + d \<le> length (rest e)"
    using Group.prems(2) by fastforce
  from Group.prems(1) have "matchRe ml a ?k' s = Some x" by simp
  from Group.IH [OF this k'] show ?case by simp
next
  case Bol
  from Bol.prems(1) have "k s = Some x" by (simp split: option.splits if_splits)
  from Bol.prems(2) [OF this] show ?case by simp
next
  case Eol
  from Eol.prems(1) have "k s = Some x" by (simp split: list.splits if_splits)
  from Eol.prems(2) [OF this] show ?case by simp
next
  case (NotBehind cs)
  from NotBehind.prems(1) have "k s = Some x" by (simp split: option.splits if_splits)
  from NotBehind.prems(2) [OF this] show ?case by simp
next
  case (NotAhead cs)
  from NotAhead.prems(1) have "k s = Some x" by (simp split: list.splits if_splits)
  from NotAhead.prems(2) [OF this] show ?case by simp
qed

lemma matchRe_Some_len:
  "matchRe ml r Some s = Some x \<Longrightarrow> length (rest x) + minLen r \<le> length (rest s)"
  using matchRe_len [where k = Some and d = 0] by fastforce

lemma scan_len:
  "scan ml r p cs = Some (sk, e) \<Longrightarrow> length sk + length (rest e) + minLen r \<le> length cs"
proof (induction cs arbitrary: p sk e)
  case Nil
  then show ?case by (auto split: option.splits dest: matchRe_Some_len)
next
  case (Cons c cs)
  show ?case
  proof (cases "matchRe ml r Some \<lparr>prev = p, rest = c # cs, caps = []\<rparr>")
    case (Some y)
    with Cons.prems have "sk = []" "y = e" by auto
    with Some show ?thesis by (auto dest: matchRe_Some_len)
  next
    case None
    with Cons.prems obtain sk' where "scan ml r (Some c) cs = Some (sk', e)" "sk = c # sk'"
      by (auto split: option.splits)
    with Cons.IH show ?thesis by fastforce
  qed
qed

lemma exec_len:
  "exec ml r s = Some m \<Longrightarrow> length (skipped m) + length (rest (tail m)) + minLen r \<le> length (rest s)"
  by (auto simp: exec_def split: option.splits dest: scan_len)

function replaceLoop :: "bool \<Rightarrow> re \<Rightarrow> ('a \<Rightarrow> rmatch \<Rightarrow> string \<times> 'a) \<Rightarrow> 'a \<Rightarrow> mstate \<Rightarrow> string \<times> 'a" where
  "replaceLoop ml r f st s =
     (case exec ml r s of
        None \<Rightarrow> (rest s, st)
      | Some m \<Rightarrow>
          (case f st m of
             (out, st') \<Rightarrow>
               if whole m = [] then
                 (case rest (tail m) of
                    [] \<Rightarrow> (skipped m @ out, st')
                  | c # cs \<Rightarrow>
                      (case replaceLoop ml r f st' ((tail m)\<lparr>prev := Some c, rest := cs\<rparr>) of
                         (out', st'') \<Rightarrow> (skipped m @ out @ c # out', st'')))
               else
                 (case replaceLoop ml r f st' (tail m) of
                    (out', st'') \<Rightarrow> (skipped m @ out @ out', st''))))"
  by pat_completeness auto
termination
  apply (relation "measure (\<lambda>(ml, r, f, st, s). length (rest s))")
    apply simp
   apply (frule exec_len)
   apply simp
  apply (auto simp: exec_def split: option.splits)
  done

declare replaceLoop.simps [simp del]

definition replaceWith :: "bool \<Rightarrow> re \<Rightarrow> ('a \<Rightarrow> rmatch \<Rightarrow> string \<times> 'a) \<Rightarrow> 'a \<Rightarrow> string \<Rightarrow> string \<times> 'a" where
  "replaceWith ml r f st s = replaceLoop ml r f st (start s)"

definition replace :: "bool \<Rightarrow> re \<Rightarrow> (rmatch \<Rightarrow> string) \<Rightarrow> string \<Rightarrow> string" where
  "replace ml r f s = fst (replaceWith ml r (\<lambda>st m. (f m, st)) () s)"

definition sub :: "rmatch \<Rightarrow> nat \<Rightarrow> string" where
  "sub m i = (case capture m i of None \<Rightarrow> [] | Some v \<Rightarrow> v)"

definition match :: "re \<Rightarrow> string \<Rightarrow> rmatch option" where
  "match r s = exec False r (start s)"

function splitLoop :: "re \<Rightarrow> string \<Rightarrow> mstate \<Rightarrow> string list" where
  "splitLoop r acc s =
     (case rest s of
        [] \<Rightarrow> [acc]
      | c # cs \<Rightarrow>
          (case matchRe False r Some (s\<lparr>caps := []\<rparr>) of
             None \<Rightarrow> splitLoop r (acc @ [c]) (s\<lparr>prev := Some c, rest := cs\<rparr>)
           | Some e \<Rightarrow>
               if acc = [] \<and> length (rest e) = length (rest s)
               then splitLoop r (acc @ [c]) (s\<lparr>prev := Some c, rest := cs\<rparr>)
               else acc # splitLoop r [] e))"
  by pat_completeness auto
termination
  apply (relation "measures [\<lambda>(r, acc, s). length (rest s), \<lambda>(r, acc, s). if acc = [] then 0 else 1]")
     apply simp
    apply simp
   apply simp
  apply (frule matchRe_Some_len)
  apply auto
  done

declare splitLoop.simps [simp del]

definition splitRe :: "re \<Rightarrow> string \<Rightarrow> string list" where
  "splitRe r s =
     (if s = [] then (case matchRe False r Some (start s) of None \<Rightarrow> [[]] | Some e \<Rightarrow> [])
      else splitLoop r [] (start s))"

fun split :: "char \<Rightarrow> string \<Rightarrow> string list" where
  "split sep [] = [[]]"
| "split sep (c # cs) =
     (if c = sep then [] # split sep cs
      else (case split sep cs of [] \<Rightarrow> [[c]] | l # ls \<Rightarrow> (c # l) # ls))"

definition tagRegex :: re where
  "tagRegex =
     Alt (Cat [Lit ''<'', Group 1 (Opt (Lit ''/'')), Group 2 (Plus (OneOf [WordC, Ch CHR ''-''])),
               Group 3 (Star (NoneOf [Ch CHR ''>''])), Lit ''>''])
         (Group 4 (Plus (NoneOf [Ch CHR ''<''])))"

definition attrRegex :: re where
  "attrRegex =
     Cat [Group 1 (Plus (OneOf [WordC, Ch CHR ''-''])), Lit ''='',
          OneOf [Ch (CHR 0x22), Ch (CHR 0x27)],
          Group 2 (Star (NoneOf [Ch (CHR 0x22), Ch (CHR 0x27)])),
          OneOf [Ch (CHR 0x22), Ch (CHR 0x27)]]"

section \<open>String methods\<close>

definition trim :: "string \<Rightarrow> string" where
  "trim s = rev (dropWhile isSpace (rev (dropWhile isSpace s)))"

definition isUpper :: "char \<Rightarrow> bool" where
  "isUpper c = ((65 \<le> code c \<and> code c \<le> 90) \<or> (192 \<le> code c \<and> code c \<le> 222 \<and> code c \<noteq> 215))"

definition toLowerCase :: "string \<Rightarrow> string" where
  "toLowerCase s = map (\<lambda>c. if isUpper c then char_of (code c + 32) else c) s"

definition includesChar :: "string \<Rightarrow> char \<Rightarrow> bool" where
  "includesChar s c = (c \<in> set s)"

definition truthy :: "string option \<Rightarrow> bool" where
  "truthy v = (case v of None \<Rightarrow> False | Some s \<Rightarrow> s \<noteq> [])"

section \<open>Objects with string values\<close>

type_synonym obj = "(string \<times> string) list"

definition decimal :: "string \<Rightarrow> int" where
  "decimal s = foldl (\<lambda>n c. 10 * n + (int (code c) - 48)) 0 s"

definition isArrayIndex :: "string \<Rightarrow> bool" where
  "isArrayIndex k =
     (k \<noteq> [] \<and> list_all isDigit k \<and> (k = ''0'' \<or> hd k \<noteq> CHR ''0'') \<and> decimal k < 4294967295)"

fun objInsert :: "string \<Rightarrow> string \<Rightarrow> obj \<Rightarrow> obj" where
  "objInsert k v [] = [(k, v)]"
| "objInsert k v ((k', v') # kvs) =
     (if isArrayIndex k \<and> (\<not> isArrayIndex k' \<or> decimal k < decimal k')
      then (k, v) # (k', v') # kvs
      else (k', v') # objInsert k v kvs)"

definition objSet :: "string \<Rightarrow> string \<Rightarrow> obj \<Rightarrow> obj" where
  "objSet k v kvs =
     (if k = ''__proto__'' then kvs
      else if k \<in> fst ` set kvs then map (\<lambda>(k', v'). if k' = k then (k', v) else (k', v')) kvs
      else objInsert k v kvs)"

section \<open>Content nodes\<close>

datatype node = Text string | Elem nodeElement
and nodeElement = NodeElement (tag: string) (attrs: "obj option") (children: "node list option")

section \<open>htmlToNodes\<close>

record frame =
  ftag :: string
  fattrs :: obj
  fchildren :: "node list"

record builder =
  stack :: "frame list"
  nodes :: "node list"

definition push :: "node \<Rightarrow> builder \<Rightarrow> builder" where
  "push n b =
     (case stack b of
        [] \<Rightarrow> b\<lparr>nodes := nodes b @ [n]\<rparr>
      | f # fs \<Rightarrow> b\<lparr>stack := f\<lparr>fchildren := fchildren f @ [n]\<rparr> # fs\<rparr>)"

definition element :: "frame \<Rightarrow> nodeElement" where
  "element completed =
     NodeElement (ftag completed)
       (if fattrs completed \<noteq> [] then Some (fattrs completed) else None)
       (if fchildren completed \<noteq> [] then Some (fchildren completed) else None)"

definition parseAttrs :: "string \<Rightarrow> failure + obj" where
  "parseAttrs attrString =
     (case execLoop False attrRegex (start attrString) of
        Inl e \<Rightarrow> Inl e
      | Inr ms \<Rightarrow>
          Inr (foldl (\<lambda>a m. case (capture m 1, capture m 2) of
                                (Some k, Some v) \<Rightarrow> objSet k v a
                              | _ \<Rightarrow> a) [] ms))"

definition closeTag :: "builder \<Rightarrow> builder" where
  "closeTag b =
     (case stack b of
        [] \<Rightarrow> b
      | completed # fs \<Rightarrow> push (Elem (element completed)) (b\<lparr>stack := fs\<rparr>))"

definition openTag :: "string \<Rightarrow> string option \<Rightarrow> builder \<Rightarrow> failure + builder" where
  "openTag tg attrString b =
     (case parseAttrs (case attrString of None \<Rightarrow> ''undefined'' | Some a \<Rightarrow> a) of
        Inl e \<Rightarrow> Inl e
      | Inr ats \<Rightarrow>
          if tg \<in> set [''br'', ''hr'', ''img'']
          then Inr (push (Elem (NodeElement tg (if ats \<noteq> [] then Some ats else None) None)) b)
          else (case attrString of
                  None \<Rightarrow> Inl TypeError
                | Some a \<Rightarrow>
                    if includesChar a CHR ''/''
                    then Inr (push (Elem (NodeElement tg (if ats \<noteq> [] then Some ats else None) None)) b)
                    else Inr (b\<lparr>stack := \<lparr>ftag = tg, fattrs = ats, fchildren = []\<rparr> # stack b\<rparr>)))"

definition htmlToNodes_body :: "builder \<Rightarrow> rmatch \<Rightarrow> failure + builder" where
  "htmlToNodes_body b m =
     (let closing = capture m 1; tagName = capture m 2; attrString = capture m 3; txt = capture m 4 in
      if truthy txt then
        (case txt of
           Some t \<Rightarrow> (let trimmedText = t in if trimmedText \<noteq> [] then Inr (push (Text trimmedText) b) else Inr b)
         | None \<Rightarrow> Inr b)
      else if truthy tagName then
        (case tagName of
           None \<Rightarrow> Inr b
         | Some tn \<Rightarrow>
             if truthy closing then Inr (closeTag b)
             else openTag (toLowerCase tn) attrString b)
      else Inr b)"

fun run :: "(builder \<Rightarrow> rmatch \<Rightarrow> failure + builder) \<Rightarrow> builder \<Rightarrow> rmatch list \<Rightarrow> failure + builder" where
  "run f b [] = Inr b"
| "run f b (m # ms) = (case f b m of Inl e \<Rightarrow> Inl e | Inr b' \<Rightarrow> run f b' ms)"

lemma closeTag_pops: "stack b = f # fs \<Longrightarrow> length (stack (closeTag b)) = length fs"
  by (cases fs) (simp_all add: closeTag_def push_def)

function unwind :: "builder \<Rightarrow> node list" where
  "unwind b = (if stack b = [] then nodes b else unwind (closeTag b))"
  by pat_completeness auto
termination
proof (relation "measure (\<lambda>b. length (stack b))")
  show "wf (measure (\<lambda>b. length (stack b)))" by simp
next
  fix b :: builder
  assume "stack b \<noteq> []"
  then obtain f fs where "stack b = f # fs" by (cases "stack b") auto
  then show "(closeTag b, b) \<in> measure (\<lambda>b. length (stack b))"
    by (simp add: closeTag_pops)
qed

declare unwind.simps [simp del]

definition htmlToNodes :: "string \<Rightarrow> failure + node list" where
  "htmlToNodes html =
     (case execLoop False tagRegex (start html) of
        Inl e \<Rightarrow> Inl e
      | Inr ms \<Rightarrow>
          (case run htmlToNodes_body \<lparr>stack = [], nodes = []\<rparr> ms of
             Inl e \<Rightarrow> Inl e
           | Inr b \<Rightarrow> Inr (unwind b)))"

section \<open>parseHtmlToNodes\<close>

definition parseHtmlToNodes_body :: "builder \<Rightarrow> rmatch \<Rightarrow> failure + builder" where
  "parseHtmlToNodes_body b m =
     (let closing = capture m 1; tagName = capture m 2; attrString = capture m 3; txt = capture m 4 in
      if truthy txt then
        (case txt of
           Some t \<Rightarrow> (let trimmed = trim t in if trimmed \<noteq> [] then Inr (push (Text trimmed) b) else Inr b)
         | None \<Rightarrow> Inr b)
      else if truthy tagName then
        (case tagName of
           None \<Rightarrow> Inr b
         | Some tn \<Rightarrow>
             if truthy closing then Inr (closeTag b)
             else openTag (toLowerCase tn) attrString b)
      else Inr b)"

definition parseHtmlToNodes :: "string \<Rightarrow> failure + node list" where
  "parseHtmlToNodes html =
     (case execLoop False tagRegex (start html) of
        Inl e \<Rightarrow> Inl e
      | Inr ms \<Rightarrow>
          (case run parseHtmlToNodes_body \<lparr>stack = [], nodes = []\<rparr> ms of
             Inl e \<Rightarrow> Inl e
           | Inr b \<Rightarrow> Inr (unwind b)))"

section \<open>Serializers\<close>

fun join :: "string \<Rightarrow> string list \<Rightarrow> string" where
  "join sep [] = []"
| "join sep [x] = x"
| "join sep (x # y # ys) = x @ sep @ join sep (y # ys)"

definition attrsToHtml :: "obj option \<Rightarrow> string" where
  "attrsToHtml a =
     (case a of
        None \<Rightarrow> []
      | Some kvs \<Rightarrow> '' '' @ join '' '' (map (\<lambda>(k, v). k @ ''='' @ [CHR 0x22] @ v @ [CHR 0x22]) kvs))"

fun nodeElementToHtml :: "nodeElement \<Rightarrow> string"
and nodesToHtml :: "node list \<Rightarrow> string" where
  "nodeElementToHtml (NodeElement tg ats cs) =
     (let children = (case cs of None \<Rightarrow> [] | Some ns \<Rightarrow> nodesToHtml ns) in
      if tg \<in> set [''br'', ''hr'', ''img'']
      then ''<'' @ tg @ attrsToHtml ats @ ''/>''
      else ''<'' @ tg @ attrsToHtml ats @ ''>'' @ children @ ''</'' @ tg @ ''>'')"
| "nodesToHtml [] = []"
| "nodesToHtml (n # ns) =
     (case n of Text s \<Rightarrow> s | Elem e \<Rightarrow> nodeElementToHtml e) @ nodesToHtml ns"

definition attrOr :: "obj option \<Rightarrow> string \<Rightarrow> string" where
  "attrOr a k =
     (case a of
        None \<Rightarrow> []
      | Some kvs \<Rightarrow> (case map_of kvs k of None \<Rightarrow> [] | Some v \<Rightarrow> v))"

fun nodeElementToMarkdown :: "nodeElement \<Rightarrow> string"
and nodesToMarkdown :: "node list \<Rightarrow> string" where
  "nodeElementToMarkdown (NodeElement tg ats cs) =
     (let children = (case cs of None \<Rightarrow> [] | Some ns \<Rightarrow> nodesToMarkdown ns) in
      if tg = ''h3'' then [CHR 0x0A] @ ''# '' @ children @ [CHR 0x0A]
      else if tg = ''h4'' then [CHR 0x0A] @ ''## '' @ children @ [CHR 0x0A]
      else if tg = ''p'' then [CHR 0x0A] @ children @ [CHR 0x0A]
      else if tg = ''b'' \<or> tg = ''strong'' then ''**'' @ children @ ''**''
      else if tg = ''i'' \<or> tg = ''em'' then ''*'' @ children @ ''*''
      else if tg = ''a'' then ''['' @ children @ '']('' @ attrOr ats ''href'' @ '')''
      else if tg = ''img'' then ''![image]('' @ attrOr ats ''src'' @ '')''
      else if tg = ''ul'' \<or> tg = ''ol'' then [CHR 0x0A] @ children
      else if tg = ''li'' then ''- '' @ children @ [CHR 0x0A]
      else if tg = ''blockquote'' then [CHR 0x0A] @ ''> '' @ children @ [CHR 0x0A]
      else if tg = ''code'' then [CHR 0x60] @ children @ [CHR 0x60]
      else if tg = ''pre'' then
        [CHR 0x0A] @ replicate 3 (CHR 0x60) @ [CHR 0x0A] @ children @ [CHR 0x0A] @ replicate 3 (CHR 0x60) @ [CHR 0x0A]
      else if tg = ''br'' then [CHR 0x0A]
      else if tg = ''hr'' then [CHR 0x0A] @ ''---'' @ [CHR 0x0A]
      else if tg = ''s'' then ''~~'' @ children @ ''~~''
      else if tg = ''u'' then ''__'' @ children @ ''__''
      else if tg = ''figure'' then children
      else if tg = ''figcaption'' then []
      else if tg = ''aside'' then [CHR 0x0A] @ ''> '' @ children @ [CHR 0x0A]
      else if tg = ''video'' \<or> tg = ''iframe'' then
        [CHR 0x0A] @ ''['' @ tg @ '']('' @ attrOr ats ''src'' @ '')'' @ [CHR 0x0A]
      else children)"
| "nodesToMarkdown [] = []"
| "nodesToMarkdown (n # ns) =
     (case n of Text s \<Rightarrow> s | Elem e \<Rightarrow> nodeElementToMarkdown e) @ nodesToMarkdown ns"

section \<open>markdownToHtml\<close>

function numStr :: "nat \<Rightarrow> string" where
  "numStr n = (if n < 10 then [char_of (48 + n)] else numStr (n div 10) @ [char_of (48 + n mod 10)])"
  by pat_completeness auto
termination
  by (relation "measure id") auto

declare numStr.simps [simp del]

text \<open>
  Reading an array at an index gives \<open>undefined\<close> (here \<open>None\<close>) outside the array, and so
  does \<open>parseInt\<close> followed by the read when the index string is itself \<open>undefined\<close>; a
  template literal prints \<open>undefined\<close> as the word.
\<close>

definition arrayGet :: "'a list \<Rightarrow> int \<Rightarrow> 'a option" where
  "arrayGet xs i = (if 0 \<le> i \<and> i < int (length xs) then Some (xs ! nat i) else None)"

definition arrayAt :: "'a list \<Rightarrow> string option \<Rightarrow> 'a option" where
  "arrayAt xs index = (case index of None \<Rightarrow> None | Some ix \<Rightarrow> arrayGet xs (decimal ix))"

definition templ :: "string option \<Rightarrow> string" where
  "templ v = (case v of None \<Rightarrow> ''undefined'' | Some s \<Rightarrow> s)"

definition codeBlockRegex :: re where
  "codeBlockRegex =
     Cat [Lit (replicate 3 (CHR 0x60)), Group 1 (StarLazy (OneOf [SpaceC, NonSpaceC])),
          Lit (replicate 3 (CHR 0x60))]"

definition inlineCodeRegex :: re where
  "inlineCodeRegex =
     Cat [Lit [CHR 0x60], Group 1 (Plus (NoneOf [Ch (CHR 0x60)])), Lit [CHR 0x60]]"

definition headerRegex :: "string \<Rightarrow> re" where
  "headerRegex hashes = Cat [Bol, Lit hashes, Plus (OneOf [SpaceC]), Group 1 (Plus AnyCh), Eol]"

definition hrRegex :: re where
  "hrRegex = Cat [Bol, Lit ''--'', Plus (Lit ''-''), Eol]"

definition imageRegex :: re where
  "imageRegex =
     Cat [Lit ''!['', Group 1 (Star (NoneOf [Ch CHR '']''])), Lit '']('',
          Group 2 (Plus (NoneOf [Ch CHR '')''])), Lit '')'']"

definition linkRegex :: re where
  "linkRegex =
     Cat [Lit ''['', Group 1 (Plus (NoneOf [Ch CHR '']''])), Lit '']('',
          Group 2 (Plus (NoneOf [Ch CHR '')''])), Lit '')'']"

definition boldStarRegex :: re where
  "boldStarRegex = Cat [Lit ''**'', Group 1 (Plus (NoneOf [Ch CHR ''*''])), Lit ''**'']"

definition boldUnderRegex :: re where
  "boldUnderRegex = Cat [Lit ''__'', Group 1 (Plus (NoneOf [Ch CHR ''_''])), Lit ''__'']"

definition italicStarRegex :: re where
  "italicStarRegex =
     Cat [NotBehind [WordC], Lit ''*'', Group 1 (Plus (NoneOf [Ch CHR ''*''])), Lit ''*'', NotAhead [WordC]]"

definition italicUnderRegex :: re where
  "italicUnderRegex =
     Cat [NotBehind [WordC], Lit ''_'', Group 1 (Plus (NoneOf [Ch CHR ''_''])), Lit ''_'', NotAhead [WordC]]"

definition blockquoteRegex :: re where
  "blockquoteRegex = Cat [Bol, Lit ''>'', Plus (OneOf [SpaceC]), Group 1 (Plus AnyCh), Eol]"

definition ulRegex :: re where
  "ulRegex =
     Cat [Bol, OneOf [Ch CHR ''-'', Ch CHR ''*''], Plus (OneOf [SpaceC]), Group 1 (Plus AnyCh), Eol]"

definition olRegex :: re where
  "olRegex =
     Cat [Bol, Plus (OneOf [DigitC]), Lit ''.'', Plus (OneOf [SpaceC]), Group 1 (Plus AnyCh), Eol]"

definition codeBlockPlaceholder :: re where
  "codeBlockPlaceholder = Cat [Lit ''__CODEBLOCK_'', Group 1 (Plus (OneOf [DigitC])), Lit ''__'']"

definition inlineCodePlaceholder :: re where
  "inlineCodePlaceholder = Cat [Lit ''__INLINECODE_'', Group 1 (Plus (OneOf [DigitC])), Lit ''__'']"

definition paragraphBreak :: re where
  "paragraphBreak = Cat [Lit [CHR 0x0A], Plus (Lit [CHR 0x0A])]"

text \<open>
  The callback of the first pass calls \<open>code.trim()\<close>, which raises a \<open>TypeError\<close> when the
  capture is \<open>undefined\<close>.  An exception ends the whole call; here it is kept in the state
  of the pass, the callbacks that follow do nothing, and \<open>markdownToHtml\<close> returns it.  The
  callback of the second pass pushes the capture as it is, \<open>undefined\<close> included.
\<close>

definition pushCodeBlock :: "failure + string list \<Rightarrow> rmatch \<Rightarrow> string \<times> (failure + string list)" where
  "pushCodeBlock st m =
     (case st of
        Inl e \<Rightarrow> ([], Inl e)
      | Inr codeBlocks \<Rightarrow>
          (case capture m 1 of
             None \<Rightarrow> ([], Inl TypeError)
           | Some c \<Rightarrow>
               (let pushed = codeBlocks @ [trim c]
                in (''__CODEBLOCK_'' @ numStr (length pushed - 1) @ ''__'', Inr pushed))))"

definition extractCodeBlocks :: "string \<Rightarrow> string \<times> (failure + string list)" where
  "extractCodeBlocks html = replaceWith False codeBlockRegex pushCodeBlock (Inr []) html"

definition extractInlineCodes :: "string \<Rightarrow> string \<times> string option list" where
  "extractInlineCodes html =
     replaceWith False inlineCodeRegex
       (\<lambda>inlineCodes m.
          (let pushed = inlineCodes @ [capture m 1]
           in (''__INLINECODE_'' @ numStr (length pushed - 1) @ ''__'', pushed)))
       [] html"

definition convertHeaders :: "string \<Rightarrow> string" where
  "convertHeaders html =
     (let h1 = replace True (headerRegex ''####'') (\<lambda>m. ''<h4>'' @ sub m 1 @ ''</h4>'') html;
          h2 = replace True (headerRegex ''###'') (\<lambda>m. ''<h4>'' @ sub m 1 @ ''</h4>'') h1;
          h3 = replace True (headerRegex ''##'') (\<lambda>m. ''<h4>'' @ sub m 1 @ ''</h4>'') h2
      in replace True (headerRegex ''#'') (\<lambda>m. ''<h3>'' @ sub m 1 @ ''</h3>'') h3)"

definition listStep :: "re \<Rightarrow> string \<Rightarrow> string list \<times> bool \<times> string list \<Rightarrow> string \<Rightarrow> string list \<times> bool \<times> string list" where
  "listStep r tg st line =
     (case st of
        (items, inList, processedLines) \<Rightarrow>
          (case match r line of
             Some m \<Rightarrow> (items @ [''<li>'' @ templ (capture m 1) @ ''</li>''], True, processedLines)
           | None \<Rightarrow>
               if inList
               then ([], False,
                     processedLines @ [''<'' @ tg @ ''>'' @ concat items @ ''</'' @ tg @ ''>'', line])
               else (items, inList, processedLines @ [line])))"

definition convertList :: "re \<Rightarrow> string \<Rightarrow> string \<Rightarrow> string" where
  "convertList r tg html =
     (case foldl (listStep r tg) ([], False, []) (split (CHR 0x0A) html) of
        (items, inList, processedLines) \<Rightarrow>
          join [CHR 0x0A]
            (if inList
             then processedLines @ [''<'' @ tg @ ''>'' @ concat items @ ''</'' @ tg @ ''>'']
             else processedLines))"

definition wrapParagraph :: "string \<Rightarrow> string" where
  "wrapParagraph para =
     (let trimmed = trim para in
      if take 1 trimmed = ''<'' \<and> take 1 (rev trimmed) = ''>'' then trimmed
      else if trimmed = [] then []
      else ''<p>'' @ trimmed @ ''</p>'')"

text \<open>
  The passes that follow the two extractions cannot raise; \<open>rewritePasses\<close> holds them in
  the order of the source, and \<open>markdownToHtml\<close> runs the extractions and then these.
\<close>

definition rewritePasses :: "string list \<Rightarrow> string option list \<Rightarrow> string \<Rightarrow> string" where
  "rewritePasses codeBlocks inlineCodes html2 =
     (let html3 = convertHeaders html2;
          html4 = replace True hrRegex (\<lambda>m. ''<hr/>'') html3;
          html5 = replace False imageRegex
                    (\<lambda>m. ''<figure><img src='' @ [CHR 0x22] @ sub m 2 @ [CHR 0x22]
                           @ ''/><figcaption>'' @ sub m 1 @ ''</figcaption></figure>'') html4;
          html6 = replace False linkRegex
                    (\<lambda>m. ''<a href='' @ [CHR 0x22] @ sub m 2 @ [CHR 0x22] @ ''>'' @ sub m 1 @ ''</a>'') html5;
          html7 = replace False boldStarRegex (\<lambda>m. ''<b>'' @ sub m 1 @ ''</b>'') html6;
          html8 = replace False boldUnderRegex (\<lambda>m. ''<b>'' @ sub m 1 @ ''</b>'') html7;
          html9 = replace False italicStarRegex (\<lambda>m. ''<i>'' @ sub m 1 @ ''</i>'') html8;
          html10 = replace False italicUnderRegex (\<lambda>m. ''<i>'' @ sub m 1 @ ''</i>'') html9;
          html11 = replace True blockquoteRegex
                     (\<lambda>m. ''<blockquote>'' @ sub m 1 @ ''</blockquote>'') html10;
          html12 = convertList ulRegex ''ul'' html11;
          html13 = convertList olRegex ''ol'' html12;
          html14 = replace False codeBlockPlaceholder
                     (\<lambda>m. ''<pre>'' @ templ (arrayAt codeBlocks (capture m 1)) @ ''</pre>'') html13;
          html15 = replace False inlineCodePlaceholder
                     (\<lambda>m. ''<code>'' @ templ (case arrayAt inlineCodes (capture m 1) of
                                                 None \<Rightarrow> None | Some c \<Rightarrow> c) @ ''</code>'') html14;
          paragraphs = splitRe paragraphBreak html15
      in join [CHR 0x0A] (filter (\<lambda>p. p \<noteq> []) (map wrapParagraph paragraphs)))"

definition markdownToHtml :: "string \<Rightarrow> failure + string" where
  "markdownToHtml markdown =
     (case extractCodeBlocks markdown of
        (html1, Inl e) \<Rightarrow> Inl e
      | (html1, Inr codeBlocks) \<Rightarrow>
          (case extractInlineCodes html1 of
             (html2, inlineCodes) \<Rightarrow> Inr (rewritePasses codeBlocks inlineCodes html2)))"

section \<open>parseContent\<close>

datatype json =
    JNull
  | JBool bool
  | JNumber real
  | JString string
  | JArray "json list"
  | JObject "(string \<times> json) list"

datatype format = Html | Markdown

datatype content = Str string | Arr "node list"

datatype tree = Nodes "node list" | Parsed "json list"

definition parseContent :: "(string \<Rightarrow> json option) \<Rightarrow> content \<Rightarrow> format \<Rightarrow> failure + tree" where
  "parseContent jsonParse cont fmt =
     (case cont of
        Arr ns \<Rightarrow> Inr (Nodes ns)
      | Str s \<Rightarrow>
          (case jsonParse s of
             Some (JArray parsed) \<Rightarrow> Inr (Parsed parsed)
           | _ \<Rightarrow>
               (case (if fmt = Markdown then markdownToHtml s else Inr s) of
                  Inl e \<Rightarrow> Inl e
                | Inr htmlContent \<Rightarrow>
                    (case htmlToNodes htmlContent of
                       Inl e \<Rightarrow> Inl e
                     | Inr ns \<Rightarrow> Inr (Nodes ns)))))"

section \<open>The loop bodies as events\<close>


datatype event = NoEvent | TextEv string | CloseEv | VoidEv string obj | OpenEv string obj

definition openEvent :: "string \<Rightarrow> string option \<Rightarrow> failure + event" where
  "openEvent tg attrString =
     (case parseAttrs (case attrString of None \<Rightarrow> ''undefined'' | Some a \<Rightarrow> a) of
        Inl e \<Rightarrow> Inl e
      | Inr ats \<Rightarrow>
          if tg \<in> set [''br'', ''hr'', ''img''] then Inr (VoidEv tg ats)
          else (case attrString of
                  None \<Rightarrow> Inl TypeError
                | Some a \<Rightarrow> if includesChar a CHR ''/'' then Inr (VoidEv tg ats) else Inr (OpenEv tg ats)))"

definition tagEvent :: "rmatch \<Rightarrow> failure + event" where
  "tagEvent m =
     (if truthy (capture m 2) then
        (case capture m 2 of
           None \<Rightarrow> Inr NoEvent
         | Some tn \<Rightarrow>
             if truthy (capture m 1) then Inr CloseEv
             else openEvent (toLowerCase tn) (capture m 3))
      else Inr NoEvent)"

definition eventH :: "rmatch \<Rightarrow> failure + event" where
  "eventH m =
     (if truthy (capture m 4) then (case capture m 4 of Some t \<Rightarrow> Inr (TextEv t) | None \<Rightarrow> Inr NoEvent)
      else tagEvent m)"

definition trimEv :: "event \<Rightarrow> event" where
  "trimEv ev = (case ev of TextEv t \<Rightarrow> (if trim t = [] then NoEvent else TextEv (trim t)) | _ \<Rightarrow> ev)"

definition eventP :: "rmatch \<Rightarrow> failure + event" where
  "eventP m = (case eventH m of Inl e \<Rightarrow> Inl e | Inr ev \<Rightarrow> Inr (trimEv ev))"

fun applyEv :: "builder \<Rightarrow> event \<Rightarrow> builder" where
  "applyEv b NoEvent = b"
| "applyEv b (TextEv t) = push (Text t) b"
| "applyEv b CloseEv = closeTag b"
| "applyEv b (VoidEv tg ats) = push (Elem (NodeElement tg (if ats \<noteq> [] then Some ats else None) None)) b"
| "applyEv b (OpenEv tg ats) = b\<lparr>stack := \<lparr>ftag = tg, fattrs = ats, fchildren = []\<rparr> # stack b\<rparr>"

fun collect :: "('a \<Rightarrow> failure + 'b) \<Rightarrow> 'a list \<Rightarrow> failure + 'b list" where
  "collect f [] = Inr []"
| "collect f (x # xs) =
     (case f x of
        Inl e \<Rightarrow> Inl e
      | Inr y \<Rightarrow> (case collect f xs of Inl e \<Rightarrow> Inl e | Inr ys \<Rightarrow> Inr (y # ys)))"

definition tokens :: "string \<Rightarrow> failure + rmatch list" where
  "tokens html = execLoop False tagRegex (start html)"

definition events :: "string \<Rightarrow> failure + event list" where
  "events html = (case tokens html of Inl e \<Rightarrow> Inl e | Inr ms \<Rightarrow> collect eventH ms)"

definition build :: "event list \<Rightarrow> node list" where
  "build evs = unwind (foldl applyEv \<lparr>stack = [], nodes = []\<rparr> evs)"

lemma openTag_event:
  "openTag tg a b = (case openEvent tg a of Inl e \<Rightarrow> Inl e | Inr ev \<Rightarrow> Inr (applyEv b ev))"
  by (simp add: openTag_def openEvent_def split: sum.splits option.splits)

lemma openEvent_cases:
  "openEvent tg a = Inr ev \<Longrightarrow> (\<exists>ats. ev = VoidEv tg ats) \<or> (\<exists>ats. ev = OpenEv tg ats \<and> tg \<notin> set [''br'', ''hr'', ''img''])"
  by (auto simp: openEvent_def split: sum.splits option.splits if_splits)

lemma tagEvent_cases:
  "tagEvent m = Inr ev \<Longrightarrow>
     ev = NoEvent \<or> ev = CloseEv \<or> (\<exists>tn a. openEvent (toLowerCase tn) a = Inr ev)"
  by (auto simp: tagEvent_def split: option.splits if_splits)

lemma tagEvent_trimEv: "tagEvent m = Inr ev \<Longrightarrow> trimEv ev = ev"
  by (auto simp: trimEv_def dest!: tagEvent_cases openEvent_cases)

lemma tag_body:
  "(if truthy (capture m 2)
    then (case capture m 2 of
            None \<Rightarrow> Inr b
          | Some tn \<Rightarrow>
              if truthy (capture m 1) then Inr (closeTag b)
              else openTag (toLowerCase tn) (capture m 3) b)
    else Inr b) = (case tagEvent m of Inl e \<Rightarrow> Inl e | Inr ev \<Rightarrow> Inr (applyEv b ev))"
  by (simp add: tagEvent_def openTag_event split: option.splits)

lemma body_eventH:
  "htmlToNodes_body b m = (case eventH m of Inl e \<Rightarrow> Inl e | Inr ev \<Rightarrow> Inr (applyEv b ev))"
proof (cases "truthy (capture m 4)")
  case True
  then show ?thesis
    by (auto simp: htmlToNodes_body_def eventH_def truthy_def Let_def split: option.splits)
next
  case False
  then show ?thesis
    by (simp only: htmlToNodes_body_def eventH_def Let_def if_False tag_body)
qed

lemma body_eventP:
  "parseHtmlToNodes_body b m = (case eventP m of Inl e \<Rightarrow> Inl e | Inr ev \<Rightarrow> Inr (applyEv b ev))"
proof (cases "truthy (capture m 4)")
  case True
  then show ?thesis
    by (auto simp: parseHtmlToNodes_body_def eventP_def eventH_def trimEv_def truthy_def Let_def
        split: option.splits)
next
  case False
  have "parseHtmlToNodes_body b m = (case tagEvent m of Inl e \<Rightarrow> Inl e | Inr ev \<Rightarrow> Inr (applyEv b ev))"
    using False by (simp only: parseHtmlToNodes_body_def Let_def if_False tag_body)
  also have "\<dots> = (case eventP m of Inl e \<Rightarrow> Inl e | Inr ev \<Rightarrow> Inr (applyEv b ev))"
    using False by (cases "tagEvent m") (simp_all add: eventP_def eventH_def tagEvent_trimEv)
  finally show ?thesis .
qed

lemma run_collect:
  assumes "\<And>b m. f b m = (case g m of Inl e \<Rightarrow> Inl e | Inr ev \<Rightarrow> Inr (applyEv b ev))"
  shows "run f b ms = (case collect g ms of Inl e \<Rightarrow> Inl e | Inr evs \<Rightarrow> Inr (foldl applyEv b evs))"
proof (induction ms arbitrary: b)
  case Nil
  show ?case by simp
next
  case (Cons m ms)
  show ?case
  proof (cases "g m")
    case (Inl e)
    have "f b m = Inl e" using Inl by (simp only: assms sum.case)
    then show ?thesis using Inl by simp
  next
    case (Inr ev)
    have "f b m = Inr (applyEv b ev)" using Inr by (simp only: assms sum.case)
    then have "run f b (m # ms) = run f (applyEv b ev) ms" by simp
    also note Cons.IH
    finally show ?thesis using Inr by (simp split: sum.splits)
  qed
qed

lemma collect_eventP:
  "collect eventP ms = (case collect eventH ms of Inl e \<Rightarrow> Inl e | Inr evs \<Rightarrow> Inr (map trimEv evs))"
  by (induction ms) (simp_all add: eventP_def split: sum.splits)

lemma htmlToNodes_events:
  "htmlToNodes html = (case events html of Inl e \<Rightarrow> Inl e | Inr evs \<Rightarrow> Inr (build evs))"
  by (simp add: htmlToNodes_def events_def tokens_def build_def run_collect [OF body_eventH]
      split: sum.splits)

lemma parseHtmlToNodes_events:
  "parseHtmlToNodes html =
     (case events html of Inl e \<Rightarrow> Inl e | Inr evs \<Rightarrow> Inr (build (map trimEv evs)))"
  by (simp add: parseHtmlToNodes_def events_def tokens_def build_def run_collect [OF body_eventP]
      collect_eventP split: sum.splits)


subsection \<open>Totality of the exec loops\<close>

lemma execLoop_total:
  assumes "0 < minLen r"
  shows "\<exists>ms. execLoop ml r s = Inr ms"
proof (induction "length (rest s)" arbitrary: s rule: less_induct)
  case less
  show ?case
  proof (cases "exec ml r s")
    case None
    then show ?thesis by (simp add: execLoop.simps [of ml r s])
  next
    case (Some m)
    from exec_len [OF Some] assms have shorter: "length (rest (tail m)) < length (rest s)" by simp
    from less [OF shorter] obtain ms where "execLoop ml r (tail m) = Inr ms" by blast
    with Some shorter show ?thesis by (simp add: execLoop.simps [of ml r s])
  qed
qed

lemma minLen_tagRegex: "minLen tagRegex = 1"
  by (simp add: tagRegex_def Cat_def Plus_def Opt_def)

lemma minLen_attrRegex: "minLen attrRegex = 4"
  by (simp add: attrRegex_def Cat_def Plus_def)

lemma tokens_total: "\<exists>ms. tokens html = Inr ms"
  unfolding tokens_def by (rule execLoop_total) (simp add: minLen_tagRegex)

lemma parseAttrs_total: "\<exists>ats. parseAttrs a = Inr ats"
proof -
  obtain ms where "execLoop False attrRegex (start a) = Inr ms"
    using execLoop_total [of attrRegex False "start a"] by (auto simp: minLen_attrRegex)
  then show ?thesis by (simp add: parseAttrs_def)
qed

subsection \<open>Which groups a match of the tag pattern sets\<close>

fun noGroup :: "re \<Rightarrow> bool" where
  "noGroup (Seq a b) = (noGroup a \<and> noGroup b)"
| "noGroup (Alt a b) = (noGroup a \<and> noGroup b)"
| "noGroup (Star a) = noGroup a"
| "noGroup (StarLazy a) = noGroup a"
| "noGroup (Group i a) = False"
| "noGroup r = True"

lemma star_cont:
  assumes f: "\<And>k' s' x'. f k' s' = Some x' \<Longrightarrow> \<exists>e. k' e = Some x' \<and> (g \<longrightarrow> caps e = caps s')"
  shows "star n f k s = Some x \<Longrightarrow> \<exists>e. k e = Some x \<and> (g \<longrightarrow> caps e = caps s)"
proof (induction n arbitrary: s x)
  case 0
  then show ?case by auto
next
  case (Suc n)
  let ?k' = "\<lambda>e. if length (rest e) < length (rest s) then star n f k e else None"
  show ?case
  proof (cases "f ?k' s")
    case None
    with Suc.prems show ?thesis by auto
  next
    case (Some y)
    with Suc.prems have "f ?k' s = Some x" by simp
    from f [OF this] obtain e where e: "?k' e = Some x" "g \<longrightarrow> caps e = caps s" by blast
    from e(1) have "star n f k e = Some x" by (simp split: if_splits)
    from Suc.IH [OF this] e(2) show ?thesis by auto
  qed
qed

lemma starLazy_cont:
  assumes f: "\<And>k' s' x'. f k' s' = Some x' \<Longrightarrow> \<exists>e. k' e = Some x' \<and> (g \<longrightarrow> caps e = caps s')"
  shows "starLazy n f k s = Some x \<Longrightarrow> \<exists>e. k e = Some x \<and> (g \<longrightarrow> caps e = caps s)"
proof (induction n arbitrary: s x)
  case 0
  then show ?case by auto
next
  case (Suc n)
  let ?k' = "\<lambda>e. if length (rest e) < length (rest s) then starLazy n f k e else None"
  show ?case
  proof (cases "k s")
    case (Some y)
    with Suc.prems show ?thesis by auto
  next
    case None
    with Suc.prems have "f ?k' s = Some x" by simp
    from f [OF this] obtain e where e: "?k' e = Some x" "g \<longrightarrow> caps e = caps s" by blast
    from e(1) have "starLazy n f k e = Some x" by (simp split: if_splits)
    from Suc.IH [OF this] e(2) show ?thesis by auto
  qed
qed

lemma matchRe_cont:
  "matchRe ml r k s = Some x \<Longrightarrow> \<exists>e. k e = Some x \<and> (noGroup r \<longrightarrow> caps e = caps s)"
proof (induction r arbitrary: k s x)
  case (Lit w)
  then show ?case by (auto split: if_splits)
next
  case (OneOf cs)
  then show ?case by (auto split: list.splits if_splits)
next
  case (NoneOf cs)
  then show ?case by (auto split: list.splits if_splits)
next
  case AnyCh
  then show ?case by (auto split: list.splits if_splits)
next
  case (Seq a b)
  from Seq.prems have "matchRe ml a (matchRe ml b k) s = Some x" by simp
  from Seq.IH(1) [OF this] obtain e1 where
    e1: "matchRe ml b k e1 = Some x" "noGroup a \<longrightarrow> caps e1 = caps s" by blast
  from Seq.IH(2) [OF e1(1)] e1(2) show ?case by auto
next
  case (Alt a b)
  show ?case
  proof (cases "matchRe ml a k s")
    case None
    with Alt.prems have "matchRe ml b k s = Some x" by simp
    from Alt.IH(2) [OF this] show ?thesis by auto
  next
    case (Some y)
    with Alt.prems have "matchRe ml a k s = Some x" by simp
    from Alt.IH(1) [OF this] show ?thesis by auto
  qed
next
  case (Star a)
  from Star.prems have "star (length (rest s)) (matchRe ml a) k s = Some x" by simp
  from star_cont [where f = "matchRe ml a" and g = "noGroup a", OF Star.IH this]
  show ?case by simp
next
  case (StarLazy a)
  from StarLazy.prems have "starLazy (length (rest s)) (matchRe ml a) k s = Some x" by simp
  from starLazy_cont [where f = "matchRe ml a" and g = "noGroup a", OF StarLazy.IH this]
  show ?case by simp
next
  case (Group i a)
  from Group.prems
  have "matchRe ml a (\<lambda>e. k (e\<lparr>caps := (i, consumed s e) # caps e\<rparr>)) s = Some x" by simp
  from Group.IH [OF this] show ?case by auto
next
  case Bol
  then show ?case by (auto split: option.splits if_splits)
next
  case Eol
  then show ?case by (auto split: list.splits if_splits)
next
  case (NotBehind cs)
  then show ?case by (auto split: option.splits if_splits)
next
  case (NotAhead cs)
  then show ?case by (auto split: list.splits if_splits)
qed

lemma matchRe_Group:
  assumes "matchRe ml (Seq (Group i a) r) k s = Some x" and "noGroup a"
  shows "\<exists>e c. matchRe ml r k e = Some x \<and> caps e = (i, c) # caps s"
proof -
  from assms(1)
  have "matchRe ml a (\<lambda>e. matchRe ml r k (e\<lparr>caps := (i, consumed s e) # caps e\<rparr>)) s = Some x"
    by simp
  from matchRe_cont [OF this] assms(2) obtain e where
    "matchRe ml r k (e\<lparr>caps := (i, consumed s e) # caps e\<rparr>) = Some x" "caps e = caps s"
    by blast
  then show ?thesis by (intro exI [of _ "e\<lparr>caps := (i, consumed s e) # caps e\<rparr>"]) auto
qed

subsection \<open>What a match consumes\<close>














subsection \<open>The state of a replacement pass\<close>





definition tagShape :: "(nat \<times> string) list \<Rightarrow> bool" where
  "tagShape cps = ((\<exists>c1 c2 c3. cps = [(3, c3), (2, c2), (1, c1)]) \<or> (\<exists>c4. cps = [(4, c4)]))"

lemma tagRegex_caps:
  assumes "matchRe ml tagRegex Some s = Some x" and "caps s = []"
  shows "tagShape (caps x)"
proof -
  let ?g3 = "Seq (Group 3 (Star (NoneOf [Ch CHR ''>'']))) (Seq (Lit ''>'') (Lit []))"
  let ?g2 = "Seq (Group 2 (Plus (OneOf [WordC, Ch CHR ''-'']))) ?g3"
  let ?g1 = "Seq (Group 1 (Opt (Lit ''/''))) ?g2"
  let ?A = "Seq (Lit ''<'') ?g1"
  let ?B = "Group 4 (Plus (NoneOf [Ch CHR ''<'']))"
  have tr: "tagRegex = Alt ?A ?B" by (simp add: tagRegex_def Cat_def)
  from assms(1) consider (A) "matchRe ml ?A Some s = Some x" | (B) "matchRe ml ?B Some s = Some x"
    unfolding tr by (auto split: option.splits)
  then show ?thesis
  proof cases
    case A
    then have "matchRe ml (Lit ''<'') (matchRe ml ?g1 Some) s = Some x" by simp
    from matchRe_cont [OF this] obtain e0 where
      e0: "matchRe ml ?g1 Some e0 = Some x" "caps e0 = caps s" by auto
    from matchRe_Group [OF e0(1)] obtain e1 c1 where
      e1: "matchRe ml ?g2 Some e1 = Some x" "caps e1 = (1, c1) # caps e0" by (auto simp: Opt_def)
    from matchRe_Group [OF e1(1)] obtain e2 c2 where
      e2: "matchRe ml ?g3 Some e2 = Some x" "caps e2 = (2, c2) # caps e1" by (auto simp: Plus_def)
    from matchRe_Group [OF e2(1)] obtain e3 c3 where
      e3: "matchRe ml (Seq (Lit ''>'') (Lit [])) Some e3 = Some x" "caps e3 = (3, c3) # caps e2" by auto
    from matchRe_cont [OF e3(1)] have "caps x = caps e3" by auto
    with e0 e1 e2 e3 assms(2) show ?thesis by (simp add: tagShape_def)
  next
    case B
    then have "matchRe ml (Plus (NoneOf [Ch CHR ''<'']))
                 (\<lambda>e. Some (e\<lparr>caps := (4, consumed s e) # caps e\<rparr>)) s = Some x" by simp
    from matchRe_cont [OF this] assms(2) show ?thesis by (auto simp: tagShape_def Plus_def)
  qed
qed

lemma scan_tagShape:
  "scan ml tagRegex p cs = Some (sk, e) \<Longrightarrow> tagShape (caps e)"
proof (induction cs arbitrary: p sk e)
  case Nil
  then show ?case by (auto split: option.splits dest: tagRegex_caps)
next
  case (Cons c cs)
  show ?case
  proof (cases "matchRe ml tagRegex Some \<lparr>prev = p, rest = c # cs, caps = []\<rparr>")
    case (Some y)
    with Cons.prems have "y = e" by auto
    with Some show ?thesis by (auto dest: tagRegex_caps)
  next
    case None
    with Cons.prems obtain sk' where "scan ml tagRegex (Some c) cs = Some (sk', e)"
      by (auto split: option.splits)
    with Cons.IH show ?thesis by blast
  qed
qed

lemma execLoop_tagShape:
  "execLoop ml tagRegex s = Inr ms \<Longrightarrow> m \<in> set ms \<Longrightarrow> tagShape (groups m)"
proof (induction "length (rest s)" arbitrary: s ms rule: less_induct)
  case less
  show ?case
  proof (cases "exec ml tagRegex s")
    case None
    with less.prems show ?thesis by (simp add: execLoop.simps [of ml tagRegex s])
  next
    case (Some m0)
    from exec_len [OF Some] have shorter: "length (rest (tail m0)) < length (rest s)"
      by (simp add: minLen_tagRegex)
    with Some less.prems(1) obtain ms' where
      ms': "execLoop ml tagRegex (tail m0) = Inr ms'" "ms = m0 # ms'"
      by (auto simp: execLoop.simps [of ml tagRegex s] split: sum.splits)
    from Some have "tagShape (groups m0)"
      by (auto simp: exec_def split: option.splits dest: scan_tagShape)
    with less.hyps [OF shorter ms'(1)] less.prems(2) ms'(2) show ?thesis by auto
  qed
qed

lemma eventH_total:
  assumes "tagShape (groups m)"
  shows "\<exists>ev. eventH m = Inr ev"
proof -
  from assms consider (tg) c1 c2 c3 where "groups m = [(3, c3), (2, c2), (1, c1)]"
    | (tx) c4 where "groups m = [(4, c4)]"
    by (auto simp: tagShape_def)
  then show ?thesis
  proof cases
    case tg
    obtain ats where "parseAttrs c3 = Inr ats" using parseAttrs_total by blast
    with tg show ?thesis
      by (simp add: eventH_def tagEvent_def openEvent_def capture_def truthy_def)
  next
    case tx
    then show ?thesis by (simp add: eventH_def tagEvent_def capture_def truthy_def)
  qed
qed

lemma collect_total:
  "(\<And>x. x \<in> set xs \<Longrightarrow> \<exists>y. f x = Inr y) \<Longrightarrow> \<exists>ys. collect f xs = Inr ys"
proof (induction xs)
  case Nil
  show ?case by simp
next
  case (Cons x xs)
  from Cons.prems obtain y where "f x = Inr y" by auto
  moreover from Cons obtain ys where "collect f xs = Inr ys" by auto
  ultimately show ?case by simp
qed

lemma events_total: "\<exists>evs. events html = Inr evs"
proof -
  obtain ms where ms: "tokens html = Inr ms" using tokens_total by blast
  have "\<exists>evs. collect eventH ms = Inr evs"
  proof (rule collect_total)
    fix m
    assume "m \<in> set ms"
    with ms have "tagShape (groups m)" unfolding tokens_def by (rule execLoop_tagShape)
    then show "\<exists>ev. eventH m = Inr ev" by (rule eventH_total)
  qed
  with ms show ?thesis by (simp add: events_def)
qed


subsection \<open>Closing frames\<close>

lemma unwind_empty: "stack b = [] \<Longrightarrow> unwind b = nodes b"
  by (simp add: unwind.simps [of b])

lemma unwind_step: "stack b \<noteq> [] \<Longrightarrow> unwind b = unwind (closeTag b)"
  by (simp add: unwind.simps [of b])

lemma closeTag_empty: "stack b = [] \<Longrightarrow> closeTag b = b"
  by (simp add: closeTag_def)

lemma closeTag_root:
  "stack b = [f] \<Longrightarrow> closeTag b = b\<lparr>stack := [], nodes := nodes b @ [Elem (element f)]\<rparr>"
  by (simp add: closeTag_def push_def)

lemma closeTag_nested:
  "stack b = f # g # fs \<Longrightarrow>
     closeTag b = b\<lparr>stack := g\<lparr>fchildren := fchildren g @ [Elem (element f)]\<rparr> # fs\<rparr>"
  by (simp add: closeTag_def push_def)

lemma closes_unwind:
  "length (stack b) = n \<Longrightarrow>
     foldl applyEv b (replicate n CloseEv) = \<lparr>stack = [], nodes = unwind b\<rparr>"
proof (induction n arbitrary: b)
  case 0
  then show ?case by (simp add: unwind_empty)
next
  case (Suc n)
  then obtain f fs where st: "stack b = f # fs" by (cases "stack b") auto
  with Suc.prems have "length (stack (closeTag b)) = n" by (simp add: closeTag_pops)
  from Suc.IH [OF this] st show ?case by (simp add: unwind_step)
qed

subsection \<open>The nodes of a tree as a multiset\<close>

datatype item = Leaf string | Tagged string "obj option"

fun itemsE :: "nodeElement \<Rightarrow> item multiset"
and itemsOf :: "node list \<Rightarrow> item multiset" where
  "itemsE (NodeElement tg a cs) =
     {#Tagged tg a#} + (case cs of None \<Rightarrow> {#} | Some ns \<Rightarrow> itemsOf ns)"
| "itemsOf [] = {#}"
| "itemsOf (n # ns) = (case n of Text s \<Rightarrow> {#Leaf s#} | Elem e \<Rightarrow> itemsE e) + itemsOf ns"

fun evItems :: "event \<Rightarrow> item multiset" where
  "evItems (TextEv t) = {#Leaf t#}"
| "evItems (VoidEv tg ats) = {#Tagged tg (if ats \<noteq> [] then Some ats else None)#}"
| "evItems (OpenEv tg ats) = {#Tagged tg (if ats \<noteq> [] then Some ats else None)#}"
| "evItems ev = {#}"

definition frameItems :: "frame \<Rightarrow> item multiset" where
  "frameItems f =
     {#Tagged (ftag f) (if fattrs f \<noteq> [] then Some (fattrs f) else None)#} + itemsOf (fchildren f)"

definition itemsB :: "builder \<Rightarrow> item multiset" where
  "itemsB b = itemsOf (nodes b) + sum_list (map frameItems (stack b))"

lemma itemsOf_append: "itemsOf (xs @ ys) = itemsOf xs + itemsOf ys"
  by (induction xs) simp_all

lemma itemsE_element: "itemsE (element f) = frameItems f"
  by (simp add: element_def frameItems_def)

lemma itemsB_push: "itemsB (push n b) = itemsB b + itemsOf [n]"
  by (cases "stack b") (simp_all add: push_def itemsB_def itemsOf_append frameItems_def)

lemma itemsB_closeTag: "itemsB (closeTag b) = itemsB b"
proof (cases "stack b")
  case Nil
  then show ?thesis by (simp add: closeTag_empty)
next
  case (Cons f fs)
  have "itemsB (closeTag b) = itemsB (b\<lparr>stack := fs\<rparr>) + itemsOf [Elem (element f)]"
    using Cons by (simp add: closeTag_def itemsB_push)
  also have "\<dots> = itemsB b"
    using Cons by (simp add: itemsB_def itemsE_element)
  finally show ?thesis .
qed

lemma itemsB_applyEv: "itemsB (applyEv b ev) = itemsB b + evItems ev"
proof (cases ev)
  case (OpenEv tg ats)
  then show ?thesis by (simp add: itemsB_def frameItems_def)
qed (simp_all add: itemsB_push itemsB_closeTag)

lemma itemsB_foldl: "itemsB (foldl applyEv b evs) = itemsB b + sum_list (map evItems evs)"
  by (induction evs arbitrary: b) (simp_all add: itemsB_applyEv add.assoc)

lemma itemsOf_unwind: "itemsOf (unwind b) = itemsB b"
proof (induction "length (stack b)" arbitrary: b)
  case 0
  then show ?case by (simp add: unwind_empty itemsB_def)
next
  case (Suc n)
  then obtain f fs where st: "stack b = f # fs" by (cases "stack b") auto
  with Suc.hyps(2) have "n = length (stack (closeTag b))" by (simp add: closeTag_pops)
  from Suc.hyps(1) [OF this] st show ?case by (simp add: unwind_step itemsB_closeTag)
qed

lemma itemsOf_build: "itemsOf (build evs) = sum_list (map evItems evs)"
  by (simp add: build_def itemsOf_unwind itemsB_foldl) (simp add: itemsB_def)

subsection \<open>Properties of every element of a tree\<close>

fun allE :: "(string \<Rightarrow> bool \<Rightarrow> bool) \<Rightarrow> nodeElement \<Rightarrow> bool"
and allN :: "(string \<Rightarrow> bool \<Rightarrow> bool) \<Rightarrow> node list \<Rightarrow> bool" where
  "allE Q (NodeElement tg a cs) =
     (Q tg (cs \<noteq> None) \<and> (case cs of None \<Rightarrow> True | Some ns \<Rightarrow> allN Q ns))"
| "allN Q [] = True"
| "allN Q (n # ns) = ((case n of Text s \<Rightarrow> True | Elem e \<Rightarrow> allE Q e) \<and> allN Q ns)"

definition invB :: "(string \<Rightarrow> bool \<Rightarrow> bool) \<Rightarrow> builder \<Rightarrow> bool" where
  "invB Q b =
     (allN Q (nodes b) \<and>
      list_all (\<lambda>f. allN Q (fchildren f) \<and> Q (ftag f) True \<and> Q (ftag f) False) (stack b))"

fun okEv :: "(string \<Rightarrow> bool \<Rightarrow> bool) \<Rightarrow> event \<Rightarrow> bool" where
  "okEv Q (VoidEv tg ats) = Q tg False"
| "okEv Q (OpenEv tg ats) = (Q tg True \<and> Q tg False)"
| "okEv Q ev = True"

lemma allN_append: "allN Q (xs @ ys) = (allN Q xs \<and> allN Q ys)"
  by (induction xs) auto

lemma invB_push: "invB Q b \<Longrightarrow> allN Q [n] \<Longrightarrow> invB Q (push n b)"
  by (cases "stack b") (auto simp: invB_def push_def allN_append)

lemma allE_element:
  "allN Q (fchildren f) \<Longrightarrow> Q (ftag f) True \<Longrightarrow> Q (ftag f) False \<Longrightarrow> allE Q (element f)"
  by (simp add: element_def)

lemma invB_closeTag: "invB Q b \<Longrightarrow> invB Q (closeTag b)"
proof (cases "stack b")
  case Nil
  then show "invB Q b \<Longrightarrow> ?thesis" by (simp add: closeTag_empty)
next
  case (Cons f fs)
  assume inv: "invB Q b"
  with Cons have "invB Q (b\<lparr>stack := fs\<rparr>)" and "allN Q [Elem (element f)]"
    by (simp_all add: invB_def allE_element)
  then have "invB Q (push (Elem (element f)) (b\<lparr>stack := fs\<rparr>))" by (rule invB_push)
  with Cons show ?thesis by (simp add: closeTag_def)
qed

lemma invB_applyEv: "invB Q b \<Longrightarrow> okEv Q ev \<Longrightarrow> invB Q (applyEv b ev)"
proof (cases ev)
  case (OpenEv tg ats)
  then show "invB Q b \<Longrightarrow> okEv Q ev \<Longrightarrow> ?thesis" by (simp add: invB_def)
qed (simp_all add: invB_push invB_closeTag)

lemma invB_foldl: "invB Q b \<Longrightarrow> list_all (okEv Q) evs \<Longrightarrow> invB Q (foldl applyEv b evs)"
  by (induction evs arbitrary: b) (simp_all add: invB_applyEv)

lemma allN_unwind: "invB Q b \<Longrightarrow> allN Q (unwind b)"
proof (induction "length (stack b)" arbitrary: b)
  case 0
  then show ?case by (simp add: unwind_empty invB_def)
next
  case (Suc n)
  then obtain f fs where st: "stack b = f # fs" by (cases "stack b") auto
  with Suc.hyps(2) have "n = length (stack (closeTag b))" by (simp add: closeTag_pops)
  from Suc.hyps(1) [OF this invB_closeTag [OF Suc.prems]] st show ?case by (simp add: unwind_step)
qed

lemma allN_build: "list_all (okEv Q) evs \<Longrightarrow> allN Q (build evs)"
  unfolding build_def by (rule allN_unwind, rule invB_foldl) (simp_all add: invB_def)


subsection \<open>Vocabulary of the properties\<close>

definition isClose :: "rmatch \<Rightarrow> bool" where
  "isClose m = (\<not> truthy (capture m 4) \<and> truthy (capture m 2) \<and> truthy (capture m 1))"


definition unterminated :: "event list \<Rightarrow> nat" where
  "unterminated evs = length (stack (foldl applyEv \<lparr>stack = [], nodes = []\<rparr> evs))"

definition trimmedRun :: "event \<Rightarrow> bool" where
  "trimmedRun ev = (case ev of TextEv t \<Rightarrow> t \<noteq> [] \<and> trim t = t | _ \<Rightarrow> True)"


definition lowerTag :: "string \<Rightarrow> bool" where
  "lowerTag tg = list_all (\<lambda>c. \<not> isUpper c) tg"

definition lowerTags :: "node list \<Rightarrow> bool" where
  "lowerTags t = allN (\<lambda>tg hasChildren. lowerTag tg) t"

definition caseless :: "rmatch \<Rightarrow> string option \<times> string option \<times> string option \<times> string option" where
  "caseless m = (capture m 1, map_option toLowerCase (capture m 2), capture m 3, capture m 4)"

subsection \<open>Facts about events\<close>

lemma isClose_event: "isClose m \<Longrightarrow> eventH m = Inr CloseEv"
  by (auto simp: isClose_def eventH_def tagEvent_def truthy_def split: option.splits)


lemma eventH_cases:
  "eventH m = Inr ev \<Longrightarrow>
     ev = NoEvent \<or> ev = CloseEv \<or> (\<exists>t. ev = TextEv t) \<or>
     (\<exists>tn ats. ev = VoidEv (toLowerCase tn) ats) \<or>
     (\<exists>tn ats. ev = OpenEv (toLowerCase tn) ats \<and> toLowerCase tn \<notin> set [''br'', ''hr'', ''img''])"
  by (auto simp: eventH_def split: if_splits option.splits dest!: tagEvent_cases openEvent_cases)

lemma collect_all:
  "collect f xs = Inr ys \<Longrightarrow> (\<And>x y. f x = Inr y \<Longrightarrow> P y) \<Longrightarrow> list_all P ys"
proof (induction xs arbitrary: ys)
  case Nil
  then show ?case by simp
next
  case (Cons x xs)
  from Cons.prems(1) obtain y ys' where "f x = Inr y" "collect f xs = Inr ys'" "ys = y # ys'"
    by (auto split: sum.splits)
  with Cons.IH [of ys'] Cons.prems(2) show ?case by auto
qed

lemma events_all:
  "events html = Inr evs \<Longrightarrow> (\<And>m ev. eventH m = Inr ev \<Longrightarrow> P ev) \<Longrightarrow> list_all P evs"
  by (auto simp: events_def split: sum.splits intro: collect_all)

lemma okEv_trimEv: "okEv Q ev \<Longrightarrow> okEv Q (trimEv ev)"
  by (cases ev) (simp_all add: trimEv_def)

lemma code_char_of: "n < 256 \<Longrightarrow> code (char_of n) = n"
  by (simp add: code_def)

lemma lower_not_upper: "isUpper c \<Longrightarrow> \<not> isUpper (char_of (code c + 32))"
proof -
  assume up: "isUpper c"
  then have "code c + 32 < 256" by (auto simp: isUpper_def)
  then have "code (char_of (code c + 32)) = code c + 32" by (rule code_char_of)
  with up show ?thesis by (auto simp: isUpper_def)
qed

lemma lowerTag_toLowerCase: "lowerTag (toLowerCase tn)"
  by (induction tn) (simp_all add: lowerTag_def toLowerCase_def lower_not_upper)


lemma eventH_lower_ok:
  "eventH m = Inr ev \<Longrightarrow> okEv (\<lambda>tg hasChildren. lowerTag tg) ev"
  by (auto dest!: eventH_cases simp: lowerTag_toLowerCase)

lemma list_all_trimEv: "list_all (okEv Q) evs \<Longrightarrow> list_all (okEv Q) (map trimEv evs)"
  by (induction evs) (simp_all add: okEv_trimEv)


lemma lowerTags_trees:
  assumes "events html = Inr evs"
  shows "lowerTags (build evs)" and "lowerTags (build (map trimEv evs))"
proof -
  have ok: "list_all (okEv (\<lambda>tg hasChildren. lowerTag tg)) evs"
    using assms eventH_lower_ok by (rule events_all)
  show "lowerTags (build evs)"
    unfolding lowerTags_def using ok by (rule allN_build)
  show "lowerTags (build (map trimEv evs))"
    unfolding lowerTags_def using list_all_trimEv [OF ok] by (rule allN_build)
qed

lemma htmlToNodes_build: "events html = Inr evs \<Longrightarrow> htmlToNodes html = Inr (build evs)"
  by (simp add: htmlToNodes_events)

lemma parseHtmlToNodes_build:
  "events html = Inr evs \<Longrightarrow> parseHtmlToNodes html = Inr (build (map trimEv evs))"
  by (simp add: parseHtmlToNodes_events)

lemma trimmedRun_trimEv: "trimmedRun ev \<Longrightarrow> trimEv ev = ev"
  by (cases ev) (simp_all add: trimmedRun_def trimEv_def)

lemma eventH_caseless: "caseless m1 = caseless m2 \<Longrightarrow> eventH m1 = eventH m2"
  by (cases "capture m1 2"; cases "capture m2 2")
     (auto simp: caseless_def eventH_def tagEvent_def truthy_def toLowerCase_def)

lemma collect_caseless:
  "map caseless ms1 = map caseless ms2 \<Longrightarrow> collect eventH ms1 = collect eventH ms2"
proof (induction ms1 arbitrary: ms2)
  case Nil
  then show ?case by simp
next
  case (Cons m ms1)
  then obtain m' ms2' where ms2: "ms2 = m' # ms2'" "caseless m = caseless m'"
    "map caseless ms1 = map caseless ms2'" by (cases ms2) auto
  show ?case
    unfolding ms2(1) by (simp only: collect.simps eventH_caseless [OF ms2(2)] Cons.IH [OF ms2(3)])
qed


lemma collect_replicate: "f x = Inr y \<Longrightarrow> collect f (replicate n x) = Inr (replicate n y)"
  by (induction n) simp_all

lemma run_closes:
  assumes "isClose m"
  shows "run htmlToNodes_body b (replicate (length (stack b)) m) = Inr \<lparr>stack = [], nodes = unwind b\<rparr>"
proof -
  have "collect eventH (replicate (length (stack b)) m) = Inr (replicate (length (stack b)) CloseEv)"
    using isClose_event [OF assms] by (rule collect_replicate)
  then show ?thesis
    by (simp add: run_collect [OF body_eventH] closes_unwind)
qed

lemma build_closed:
  "build (evs @ replicate (unterminated evs) CloseEv) = build evs"
  "unterminated (evs @ replicate (unterminated evs) CloseEv) = 0"
  by (simp_all add: build_def unterminated_def closes_unwind unwind_empty)

text \<open>
  C2: a close tag met with an empty stack leaves the builder unchanged; the loop that ends
  \<open>htmlToNodes\<close> pops every frame still open, innermost first, and appends it to its parent,
  which is what as many close tags would have done; so the tree of an input with unterminated
  open tags is the tree of the same tokens followed by the missing close tags, and the nodes of
  the tree are, as a multiset, exactly the text runs and opened elements of the input.
\<close>

theorem stack_discipline:
  "(isClose m \<longrightarrow> stack b = [] \<longrightarrow> htmlToNodes_body b m = Inr b)
   \<and> (isClose m \<longrightarrow>
        run htmlToNodes_body b (replicate (length (stack b)) m) = Inr \<lparr>stack = [], nodes = unwind b\<rparr>)
   \<and> (stack b = [f] \<longrightarrow> unwind b = nodes b @ [Elem (element f)])
   \<and> (stack b = f # g # fs \<longrightarrow>
        unwind b = unwind (b\<lparr>stack := g\<lparr>fchildren := fchildren g @ [Elem (element f)]\<rparr> # fs\<rparr>))
   \<and> (events html = Inr evs \<longrightarrow>
        htmlToNodes html = Inr (build evs)
        \<and> build (evs @ replicate (unterminated evs) CloseEv) = build evs
        \<and> unterminated (evs @ replicate (unterminated evs) CloseEv) = 0
        \<and> itemsOf (build evs) = sum_list (map evItems evs))"
proof (intro conjI impI)
  assume "isClose m" and "stack b = []"
  then show "htmlToNodes_body b m = Inr b"
    by (simp add: body_eventH isClose_event closeTag_empty)
next
  assume "isClose m"
  then show "run htmlToNodes_body b (replicate (length (stack b)) m) = Inr \<lparr>stack = [], nodes = unwind b\<rparr>"
    by (rule run_closes)
next
  assume "stack b = [f]"
  then show "unwind b = nodes b @ [Elem (element f)]"
    by (simp add: unwind_step closeTag_root unwind_empty)
next
  assume "stack b = f # g # fs"
  then show "unwind b = unwind (b\<lparr>stack := g\<lparr>fchildren := fchildren g @ [Elem (element f)]\<rparr> # fs\<rparr>)"
    by (simp add: unwind_step closeTag_nested)
next
  assume "events html = Inr evs"
  then show "htmlToNodes html = Inr (build evs)" by (rule htmlToNodes_build)
next
  show "build (evs @ replicate (unterminated evs) CloseEv) = build evs" by (rule build_closed)
next
  show "unterminated (evs @ replicate (unterminated evs) CloseEv) = 0" by (rule build_closed)
next
  show "itemsOf (build evs) = sum_list (map evItems evs)" by (rule itemsOf_build)
qed

theorem stack_discipline_witness:
  "isClose \<lparr>skipped = [], whole = ''</b>'', groups = [(3, []), (2, ''b''), (1, ''/'')], tail = start []\<rparr>
   \<and> htmlToNodes_body \<lparr>stack = [], nodes = [Text ''x'']\<rparr>
         \<lparr>skipped = [], whole = ''</b>'', groups = [(3, []), (2, ''b''), (1, ''/'')], tail = start []\<rparr>
       = Inr \<lparr>stack = [], nodes = [Text ''x'']\<rparr>
   \<and> run htmlToNodes_body
         \<lparr>stack = [\<lparr>ftag = ''b'', fattrs = [], fchildren = [Text ''c'']\<rparr>,
                   \<lparr>ftag = ''p'', fattrs = [], fchildren = [Text ''a'']\<rparr>], nodes = []\<rparr>
         (replicate 2 \<lparr>skipped = [], whole = ''</b>'', groups = [(3, []), (2, ''b''), (1, ''/'')], tail = start []\<rparr>)
       = Inr \<lparr>stack = [],
              nodes = [Elem (NodeElement ''p'' None
                         (Some [Text ''a'', Elem (NodeElement ''b'' None (Some [Text ''c'']))]))]\<rparr>
   \<and> unwind \<lparr>stack = [\<lparr>ftag = ''p'', fattrs = [], fchildren = [Text ''a'']\<rparr>], nodes = [Text ''x'']\<rparr>
       = [Text ''x'', Elem (NodeElement ''p'' None (Some [Text ''a'']))]
   \<and> unwind \<lparr>stack = [\<lparr>ftag = ''b'', fattrs = [], fchildren = [Text ''c'']\<rparr>,
                     \<lparr>ftag = ''p'', fattrs = [], fchildren = [Text ''a'']\<rparr>], nodes = []\<rparr>
       = unwind \<lparr>stack = [\<lparr>ftag = ''p'', fattrs = [],
                           fchildren = [Text ''a'', Elem (NodeElement ''b'' None (Some [Text ''c'']))]\<rparr>],
                 nodes = []\<rparr>
   \<and> events ''<p>a<b>c'' = Inr [OpenEv ''p'' [], TextEv ''a'', OpenEv ''b'' [], TextEv ''c'']
   \<and> htmlToNodes ''<p>a<b>c''
       = Inr [Elem (NodeElement ''p'' None (Some [Text ''a'', Elem (NodeElement ''b'' None (Some [Text ''c'']))]))]
   \<and> unterminated [OpenEv ''p'' [], TextEv ''a'', OpenEv ''b'' [], TextEv ''c''] = 2
   \<and> build ([OpenEv ''p'' [], TextEv ''a'', OpenEv ''b'' [], TextEv ''c''] @ replicate 2 CloseEv)
       = build [OpenEv ''p'' [], TextEv ''a'', OpenEv ''b'' [], TextEv ''c'']
   \<and> itemsOf (build [OpenEv ''p'' [], TextEv ''a'', OpenEv ''b'' [], TextEv ''c''])
       = {#Tagged ''p'' None, Leaf ''a'', Tagged ''b'' None, Leaf ''c''#}"
proof -
  let ?m = "\<lparr>skipped = [], whole = ''</b>'', groups = [(3, []), (2, ''b''), (1, ''/'')], tail = start []\<rparr>"
  let ?b0 = "\<lparr>stack = [], nodes = [Text ''x'']\<rparr>"
  let ?fb = "\<lparr>ftag = ''b'', fattrs = [], fchildren = [Text ''c'']\<rparr>"
  let ?fp = "\<lparr>ftag = ''p'', fattrs = [], fchildren = [Text ''a'']\<rparr>"
  let ?b2 = "\<lparr>stack = [?fb, ?fp], nodes = []\<rparr>"
  let ?b1 = "\<lparr>stack = [?fp], nodes = [Text ''x'']\<rparr>"
  let ?evs = "[OpenEv ''p'' [], TextEv ''a'', OpenEv ''b'' [], TextEv ''c'']"
  have c: "isClose ?m" by code_simp
  have ev: "events ''<p>a<b>c'' = Inr ?evs" by code_simp
  have u2: "unwind ?b2 = [Elem (NodeElement ''p'' None
                         (Some [Text ''a'', Elem (NodeElement ''b'' None (Some [Text ''c'']))]))]"
    by code_simp
  have bd: "build ?evs = [Elem (NodeElement ''p'' None
                         (Some [Text ''a'', Elem (NodeElement ''b'' None (Some [Text ''c'']))]))]"
    by code_simp
  have un: "unterminated ?evs = 2" by code_simp
  have el: "element ?fp = NodeElement ''p'' None (Some [Text ''a''])" by (simp add: element_def)
  from stack_discipline [of ?m ?b0] c
  have 1: "htmlToNodes_body ?b0 ?m = Inr ?b0" by simp
  from stack_discipline [of ?m ?b2] c u2
  have 2: "run htmlToNodes_body ?b2 (replicate 2 ?m) = Inr \<lparr>stack = [], nodes = [Elem (NodeElement ''p'' None
                         (Some [Text ''a'', Elem (NodeElement ''b'' None (Some [Text ''c'']))]))]\<rparr>"
    by (simp add: numeral_2_eq_2)
  from stack_discipline [of _ ?b1 ?fp] el
  have 3: "unwind ?b1 = [Text ''x'', Elem (NodeElement ''p'' None (Some [Text ''a'']))]" by simp
  from stack_discipline [of _ ?b2 ?fb ?fp "[]"]
  have 4: "unwind ?b2 = unwind \<lparr>stack = [\<lparr>ftag = ''p'', fattrs = [],
                           fchildren = [Text ''a'', Elem (NodeElement ''b'' None (Some [Text ''c'']))]\<rparr>],
                 nodes = []\<rparr>"
    by (simp add: element_def)
  from stack_discipline [of _ _ _ _ _ "''<p>a<b>c''" ?evs] ev un bd
  have 5: "htmlToNodes ''<p>a<b>c'' = Inr [Elem (NodeElement ''p'' None
                         (Some [Text ''a'', Elem (NodeElement ''b'' None (Some [Text ''c'']))]))]"
    "build (?evs @ replicate 2 CloseEv) = build ?evs"
    "itemsOf (build ?evs) = {#Tagged ''p'' None, Leaf ''a'', Tagged ''b'' None, Leaf ''c''#}"
    by simp_all
  from c 1 2 3 4 ev 5 un show ?thesis by blast
qed


lemma map_trimEv_id: "list_all trimmedRun evs \<Longrightarrow> map trimEv evs = evs"
  by (induction evs) (simp_all add: trimmedRun_trimEv)

lemma builders_disagree: "htmlToNodes '' a'' \<noteq> parseHtmlToNodes '' a''"
proof -
  have "htmlToNodes '' a'' = Inr [Text '' a'']" by code_simp
  moreover have "parseHtmlToNodes '' a'' = Inr [Text ''a'']" by code_simp
  ultimately show ?thesis by simp
qed

text \<open>
  C3: \<open>htmlToNodes\<close> builds the tree of the token events as they are, \<open>parseHtmlToNodes\<close>
  builds the tree of the same events with every text run trimmed and the runs that become
  empty dropped; they agree whenever every text run is non-empty and equal to its own trim,
  and they do disagree on \<open>'' a''\<close>.
\<close>

theorem builders_differ_in_trimming_only:
  "(events html = Inr evs \<longrightarrow>
      htmlToNodes html = Inr (build evs) \<and> parseHtmlToNodes html = Inr (build (map trimEv evs)))
   \<and> (events html = Inr evs \<longrightarrow> list_all trimmedRun evs \<longrightarrow> parseHtmlToNodes html = htmlToNodes html)
   \<and> htmlToNodes '' a'' \<noteq> parseHtmlToNodes '' a''"
proof (intro conjI impI)
  assume "events html = Inr evs"
  then show "htmlToNodes html = Inr (build evs)" by (rule htmlToNodes_build)
next
  assume "events html = Inr evs"
  then show "parseHtmlToNodes html = Inr (build (map trimEv evs))" by (rule parseHtmlToNodes_build)
next
  assume "events html = Inr evs" and "list_all trimmedRun evs"
  then show "parseHtmlToNodes html = htmlToNodes html"
    by (simp add: htmlToNodes_build parseHtmlToNodes_build map_trimEv_id)
next
  show "htmlToNodes '' a'' \<noteq> parseHtmlToNodes '' a''" by (rule builders_disagree)
qed

theorem builders_differ_in_trimming_only_witness:
  "events ''<p>Hi <b>x</b></p>'' = Inr [OpenEv ''p'' [], TextEv ''Hi '', OpenEv ''b'' [], TextEv ''x'', CloseEv, CloseEv]
   \<and> htmlToNodes ''<p>Hi <b>x</b></p>''
       = Inr (build [OpenEv ''p'' [], TextEv ''Hi '', OpenEv ''b'' [], TextEv ''x'', CloseEv, CloseEv])
   \<and> parseHtmlToNodes ''<p>Hi <b>x</b></p>''
       = Inr (build [OpenEv ''p'' [], TextEv ''Hi'', OpenEv ''b'' [], TextEv ''x'', CloseEv, CloseEv])
   \<and> events ''<p>Hi<b>x</b></p>'' = Inr [OpenEv ''p'' [], TextEv ''Hi'', OpenEv ''b'' [], TextEv ''x'', CloseEv, CloseEv]
   \<and> list_all trimmedRun [OpenEv ''p'' [], TextEv ''Hi'', OpenEv ''b'' [], TextEv ''x'', CloseEv, CloseEv]
   \<and> parseHtmlToNodes ''<p>Hi<b>x</b></p>'' = htmlToNodes ''<p>Hi<b>x</b></p>''"
proof -
  let ?e1 = "[OpenEv ''p'' [], TextEv ''Hi '', OpenEv ''b'' [], TextEv ''x'', CloseEv, CloseEv]"
  let ?e2 = "[OpenEv ''p'' [], TextEv ''Hi'', OpenEv ''b'' [], TextEv ''x'', CloseEv, CloseEv]"
  have ev1: "events ''<p>Hi <b>x</b></p>'' = Inr ?e1" by code_simp
  have ev2: "events ''<p>Hi<b>x</b></p>'' = Inr ?e2" by code_simp
  have tr: "map trimEv ?e1 = ?e2" by code_simp
  have ok: "list_all trimmedRun ?e2" by code_simp
  from builders_differ_in_trimming_only [of "''<p>Hi <b>x</b></p>''" ?e1] ev1 tr
  have 1: "htmlToNodes ''<p>Hi <b>x</b></p>'' = Inr (build ?e1)"
    "parseHtmlToNodes ''<p>Hi <b>x</b></p>'' = Inr (build ?e2)" by simp_all
  from builders_differ_in_trimming_only [of "''<p>Hi<b>x</b></p>''" ?e2] ev2 ok
  have 2: "parseHtmlToNodes ''<p>Hi<b>x</b></p>'' = htmlToNodes ''<p>Hi<b>x</b></p>''" by blast
  from ev1 ev2 ok 1 2 show ?thesis by blast
qed







lemma case_example:
  "htmlToNodes ''<B>hi</B>'' = htmlToNodes ''<b>hi</b>''"
  "parseHtmlToNodes ''<B>hi</B>'' = parseHtmlToNodes ''<b>hi</b>''"
  "htmlToNodes ''<B>hi</B>'' = Inr [Elem (NodeElement ''b'' None (Some [Text ''hi'']))]"
proof -
  have 1: "htmlToNodes ''<B>hi</B>'' = Inr [Elem (NodeElement ''b'' None (Some [Text ''hi'']))]" by code_simp
  have 2: "htmlToNodes ''<b>hi</b>'' = Inr [Elem (NodeElement ''b'' None (Some [Text ''hi'']))]" by code_simp
  have 3: "parseHtmlToNodes ''<B>hi</B>'' = Inr [Elem (NodeElement ''b'' None (Some [Text ''hi'']))]" by code_simp
  have 4: "parseHtmlToNodes ''<b>hi</b>'' = Inr [Elem (NodeElement ''b'' None (Some [Text ''hi'']))]" by code_simp
  show "htmlToNodes ''<B>hi</B>'' = htmlToNodes ''<b>hi</b>''" using 1 2 by simp
  show "parseHtmlToNodes ''<B>hi</B>'' = parseHtmlToNodes ''<b>hi</b>''" using 3 4 by simp
  show "htmlToNodes ''<B>hi</B>'' = Inr [Elem (NodeElement ''b'' None (Some [Text ''hi'']))]" by (rule 1)
qed

lemma events_caseless:
  assumes "tokens h1 = Inr ms1" and "tokens h2 = Inr ms2" and "map caseless ms1 = map caseless ms2"
  shows "events h1 = events h2"
proof -
  from assms(3) have "collect eventH ms1 = collect eventH ms2" by (rule collect_caseless)
  with assms(1,2) show ?thesis by (simp add: events_def)
qed

text \<open>
  C10: every element in the output of \<open>htmlToNodes\<close> or \<open>parseHtmlToNodes\<close> has a tag without
  upper-case letters, and two inputs whose tokens differ only in the letter case of the tag
  names give the same trees, as \<open><B>hi</B>\<close> and \<open><b>hi</b>\<close> do.
\<close>

theorem tag_names_lowercased:
  "(htmlToNodes html = Inr t \<longrightarrow> lowerTags t)
   \<and> (parseHtmlToNodes html = Inr t' \<longrightarrow> lowerTags t')
   \<and> (tokens h1 = Inr ms1 \<longrightarrow> tokens h2 = Inr ms2 \<longrightarrow> map caseless ms1 = map caseless ms2 \<longrightarrow>
        htmlToNodes h1 = htmlToNodes h2 \<and> parseHtmlToNodes h1 = parseHtmlToNodes h2)
   \<and> htmlToNodes ''<B>hi</B>'' = htmlToNodes ''<b>hi</b>''
   \<and> parseHtmlToNodes ''<B>hi</B>'' = parseHtmlToNodes ''<b>hi</b>''"
proof (intro conjI impI)
  obtain evs where evs: "events html = Inr evs" using events_total by blast
  {
    assume "htmlToNodes html = Inr t"
    with evs have "t = build evs" by (simp add: htmlToNodes_build)
    with lowerTags_trees(1) [OF evs] show "lowerTags t" by simp
  next
    assume "parseHtmlToNodes html = Inr t'"
    with evs have "t' = build (map trimEv evs)" by (simp add: parseHtmlToNodes_build)
    with lowerTags_trees(2) [OF evs] show "lowerTags t'" by simp
  }
next
  assume a: "tokens h1 = Inr ms1" "tokens h2 = Inr ms2" "map caseless ms1 = map caseless ms2"
  from events_caseless [OF a] show "htmlToNodes h1 = htmlToNodes h2"
    by (simp add: htmlToNodes_events)
  from events_caseless [OF a] show "parseHtmlToNodes h1 = parseHtmlToNodes h2"
    by (simp add: parseHtmlToNodes_events)
next
  show "htmlToNodes ''<B>hi</B>'' = htmlToNodes ''<b>hi</b>''" by (rule case_example)
next
  show "parseHtmlToNodes ''<B>hi</B>'' = parseHtmlToNodes ''<b>hi</b>''" by (rule case_example)
qed

theorem tag_names_lowercased_witness:
  "htmlToNodes ''<DIV Class=\"A\">x<Br></DIV>''
     = Inr [Elem (NodeElement ''div'' (Some [(''Class'', ''A'')]) (Some [Text ''x'', Elem (NodeElement ''br'' None None)]))]
   \<and> lowerTags [Elem (NodeElement ''div'' (Some [(''Class'', ''A'')]) (Some [Text ''x'', Elem (NodeElement ''br'' None None)]))]
   \<and> parseHtmlToNodes ''<DIV Class=\"A\">x<Br></DIV>''
     = Inr [Elem (NodeElement ''div'' (Some [(''Class'', ''A'')]) (Some [Text ''x'', Elem (NodeElement ''br'' None None)]))]
   \<and> map_sum id (map caseless) (tokens ''<B>hi</B>'') = map_sum id (map caseless) (tokens ''<b>hi</b>'')
   \<and> htmlToNodes ''<B>hi</B>'' = htmlToNodes ''<b>hi</b>''
   \<and> parseHtmlToNodes ''<B>hi</B>'' = parseHtmlToNodes ''<b>hi</b>''"
proof -
  let ?t = "[Elem (NodeElement ''div'' (Some [(''Class'', ''A'')]) (Some [Text ''x'', Elem (NodeElement ''br'' None None)]))]"
  have h: "htmlToNodes ''<DIV Class=\"A\">x<Br></DIV>'' = Inr ?t" by code_simp
  have p: "parseHtmlToNodes ''<DIV Class=\"A\">x<Br></DIV>'' = Inr ?t" by code_simp
  obtain ms1 where m1: "tokens ''<B>hi</B>'' = Inr ms1" using tokens_total by blast
  obtain ms2 where m2: "tokens ''<b>hi</b>'' = Inr ms2" using tokens_total by blast
  have eq: "map_sum id (map caseless) (tokens ''<B>hi</B>'') = map_sum id (map caseless) (tokens ''<b>hi</b>'')"
    by code_simp
  with m1 m2 have c: "map caseless ms1 = map caseless ms2" by simp
  note T = tag_names_lowercased [of "''<DIV Class=\"A\">x<Br></DIV>''" ?t ?t "''<B>hi</B>''" ms1 "''<b>hi</b>''" ms2]
  from T h have 1: "lowerTags ?t" by blast
  from T m1 m2 c have 2: "htmlToNodes ''<B>hi</B>'' = htmlToNodes ''<b>hi</b>''"
    "parseHtmlToNodes ''<B>hi</B>'' = parseHtmlToNodes ''<b>hi</b>''" by blast+
  from h p eq 1 2 show ?thesis by blast
qed

lemma brackets_as_markup: "htmlToNodes ''[1,2,3]'' = Inr [Text ''[1,2,3]'']"
  by code_simp

text \<open>
  C4: when \<open>JSON.parse\<close> accepts the string and the value is an array, \<open>parseContent\<close> returns
  that array, whatever the declared format, without rewriting Markdown or parsing markup; when
  the string is not JSON or its value is not an array, the string goes to the conversion of
  its format.  \<open>JSON.parse\<close> is a parameter of the model.
\<close>

theorem json_array_bypasses_conversion:
  "(jsonParse s = Some (JArray parsed) \<longrightarrow> parseContent jsonParse (Str s) fmt = Inr (Parsed parsed))
   \<and> ((\<forall>parsed. jsonParse s \<noteq> Some (JArray parsed)) \<longrightarrow>
        parseContent jsonParse (Str s) fmt =
          (case (if fmt = Markdown then markdownToHtml s else Inr s) of
             Inl e \<Rightarrow> Inl e
           | Inr htmlContent \<Rightarrow>
               (case htmlToNodes htmlContent of
                  Inl e \<Rightarrow> Inl e
                | Inr ns \<Rightarrow> Inr (Nodes ns))))
   \<and> (jsonParse ''[1,2,3]'' = Some (JArray [JNumber 1, JNumber 2, JNumber 3]) \<longrightarrow>
        parseContent jsonParse (Str ''[1,2,3]'') Html = Inr (Parsed [JNumber 1, JNumber 2, JNumber 3]))
   \<and> htmlToNodes ''[1,2,3]'' = Inr [Text ''[1,2,3]'']
   \<and> parseContent jsonParse (Arr ns) fmt = Inr (Nodes ns)"
proof (intro conjI impI)
  assume "jsonParse s = Some (JArray parsed)"
  then show "parseContent jsonParse (Str s) fmt = Inr (Parsed parsed)"
    by (simp add: parseContent_def)
next
  assume no: "\<forall>parsed. jsonParse s \<noteq> Some (JArray parsed)"
  show "parseContent jsonParse (Str s) fmt =
          (case (if fmt = Markdown then markdownToHtml s else Inr s) of
             Inl e \<Rightarrow> Inl e
           | Inr htmlContent \<Rightarrow>
               (case htmlToNodes htmlContent of
                  Inl e \<Rightarrow> Inl e
                | Inr ns \<Rightarrow> Inr (Nodes ns)))"
  proof (cases "jsonParse s")
    case None
    then show ?thesis by (simp add: parseContent_def)
  next
    case (Some j)
    with no show ?thesis by (cases j) (simp_all add: parseContent_def)
  qed
next
  assume "jsonParse ''[1,2,3]'' = Some (JArray [JNumber 1, JNumber 2, JNumber 3])"
  then show "parseContent jsonParse (Str ''[1,2,3]'') Html = Inr (Parsed [JNumber 1, JNumber 2, JNumber 3])"
    by (simp add: parseContent_def)
next
  show "htmlToNodes ''[1,2,3]'' = Inr [Text ''[1,2,3]'']" by (rule brackets_as_markup)
next
  show "parseContent jsonParse (Arr ns) fmt = Inr (Nodes ns)" by (simp add: parseContent_def)
qed

definition sampleJsonParse :: "string \<Rightarrow> json option" where
  "sampleJsonParse s =
     (if s = ''[1,2,3]'' then Some (JArray [JNumber 1, JNumber 2, JNumber 3])
      else if s = ''{}'' then Some (JObject [])
      else None)"

theorem json_array_bypasses_conversion_witness:
  "sampleJsonParse ''[1,2,3]'' = Some (JArray [JNumber 1, JNumber 2, JNumber 3])
   \<and> parseContent sampleJsonParse (Str ''[1,2,3]'') Html = Inr (Parsed [JNumber 1, JNumber 2, JNumber 3])
   \<and> parseContent sampleJsonParse (Str ''[1,2,3]'') Markdown = Inr (Parsed [JNumber 1, JNumber 2, JNumber 3])
   \<and> sampleJsonParse ''# A'' = None
   \<and> parseContent sampleJsonParse (Str ''# A'') Markdown
       = Inr (Nodes [Elem (NodeElement ''h3'' None (Some [Text ''A'']))])
   \<and> sampleJsonParse ''{}'' = Some (JObject [])
   \<and> parseContent sampleJsonParse (Str ''{}'') Html = Inr (Nodes [Text ''{}''])"
proof -
  have j1: "sampleJsonParse ''[1,2,3]'' = Some (JArray [JNumber 1, JNumber 2, JNumber 3])"
    by (simp add: sampleJsonParse_def)
  have j2: "sampleJsonParse ''# A'' = None" by (simp add: sampleJsonParse_def)
  have j3: "sampleJsonParse ''{}'' = Some (JObject [])" by (simp add: sampleJsonParse_def)
  have md: "markdownToHtml ''# A'' = Inr ''<h3>A</h3>''"
    "htmlToNodes ''<h3>A</h3>'' = Inr [Elem (NodeElement ''h3'' None (Some [Text ''A'']))]"
    by code_simp+
  have ob: "htmlToNodes ''{}'' = Inr [Text ''{}'']" by code_simp
  from json_array_bypasses_conversion [of sampleJsonParse "''[1,2,3]''" "[JNumber 1, JNumber 2, JNumber 3]" Html] j1
  have 1: "parseContent sampleJsonParse (Str ''[1,2,3]'') Html = Inr (Parsed [JNumber 1, JNumber 2, JNumber 3])"
    by blast
  from json_array_bypasses_conversion [of sampleJsonParse "''[1,2,3]''" "[JNumber 1, JNumber 2, JNumber 3]" Markdown] j1
  have 2: "parseContent sampleJsonParse (Str ''[1,2,3]'') Markdown = Inr (Parsed [JNumber 1, JNumber 2, JNumber 3])"
    by blast
  from json_array_bypasses_conversion [of sampleJsonParse "''# A''" _ Markdown] j2 md
  have 3: "parseContent sampleJsonParse (Str ''# A'') Markdown
       = Inr (Nodes [Elem (NodeElement ''h3'' None (Some [Text ''A'']))])" by simp
  from json_array_bypasses_conversion [of sampleJsonParse "''{}''" _ Html] j3 ob
  have 4: "parseContent sampleJsonParse (Str ''{}'') Html = Inr (Nodes [Text ''{}''])" by simp
  from j1 j2 j3 1 2 3 4 show ?thesis by blast
qed

text \<open>
  C1: the round trip through \<open>nodesToHtml\<close> on the tree of \<open><a href="/x">l</a>p\<close>.  The slash
  inside the attribute value makes the \<open>a\<close> tag self-closed, the two text runs become
  neighbours, and parsing the serialization merges them.
\<close>

theorem round_trip_broken_by_slash_in_attribute:
  "htmlToNodes ''<a href=\"/x\">l</a>p''
     = Inr [Elem (NodeElement ''a'' (Some [(''href'', ''/x'')]) None), Text ''l'', Text ''p'']
   \<and> nodesToHtml [Elem (NodeElement ''a'' (Some [(''href'', ''/x'')]) None), Text ''l'', Text ''p'']
     = ''<a href=\"/x\"></a>lp''
   \<and> htmlToNodes ''<a href=\"/x\"></a>lp''
     = Inr [Elem (NodeElement ''a'' (Some [(''href'', ''/x'')]) None), Text ''lp'']"
  by code_simp

subsection \<open>List items\<close>

definition listItem :: "obj option \<times> node list option \<Rightarrow> node" where
  "listItem it = Elem (NodeElement ''li'' (fst it) (snd it))"

definition bulletLine :: "obj option \<times> node list option \<Rightarrow> string" where
  "bulletLine it =
     ''- '' @ (case snd it of None \<Rightarrow> [] | Some ns \<Rightarrow> nodesToMarkdown ns) @ [CHR 0x0A]"

subsection \<open>Literal parsing scenario\<close>

text \<open>
  C8: \<open>htmlToNodes\<close> applied to \<open><p>Hello <b>world</b>!</p>\<close> returns one \<open>p\<close> element
  whose children are the text leaf \<open>Hello \<close> (trailing space kept), a \<open>b\<close> element holding
  \<open>world\<close>, and the text leaf \<open>!\<close>.
\<close>

theorem literal_hello_world:
  "htmlToNodes ''<p>Hello <b>world</b>!</p>'' =
     Inr [Elem (NodeElement ''p'' None
            (Some [Text ''Hello '', Elem (NodeElement ''b'' None (Some [Text ''world''])), Text ''!'']))]"
  by code_simp

subsection \<open>List ordering in the Markdown serializer\<close>

lemma nodesToMarkdown_items:
  "nodesToMarkdown (map listItem items) = concat (map bulletLine items)"
  by (induction items) (simp_all add: listItem_def bulletLine_def)

text \<open>
  C9: an \<open>ol\<close> element and a \<open>ul\<close> element with the same attributes and children have the
  same Markdown; when the children are \<open>li\<close> items, each is rendered as a \<open>- \<close> bullet line,
  so the output does not tell the two kinds of list apart.
\<close>

theorem list_ordering_lost:
  "nodesToMarkdown [Elem (NodeElement ''ol'' a cs)] = nodesToMarkdown [Elem (NodeElement ''ul'' a cs)]
   \<and> nodesToMarkdown [Elem (NodeElement ''ol'' a (Some (map listItem items)))]
       = [CHR 0x0A] @ concat (map bulletLine items)
   \<and> nodesToMarkdown [Elem (NodeElement ''ul'' a (Some (map listItem items)))]
       = [CHR 0x0A] @ concat (map bulletLine items)"
  by (simp add: nodesToMarkdown_items)

section \<open>Markdown headings\<close>

subsection \<open>Matching character runs\<close>

definition after :: "mstate \<Rightarrow> string \<Rightarrow> string \<Rightarrow> mstate" where
  "after s xs ys = (if xs = [] then s else s\<lparr>prev := Some (last xs), rest := ys\<rparr>)"

definition charStep :: "(char \<Rightarrow> bool) \<Rightarrow> (cont \<Rightarrow> cont) \<Rightarrow> bool" where
  "charStep P f =
     (\<forall>k s. f k s = (case rest s of
                         [] \<Rightarrow> None
                       | c # r \<Rightarrow> if P c then k (s\<lparr>prev := Some c, rest := r\<rparr>) else None))"

lemma charStep_OneOf: "charStep (inClass cs) (matchRe ml (OneOf cs))"
  by (simp add: charStep_def)

lemma charStep_NoneOf: "charStep (\<lambda>c. \<not> inClass cs c) (matchRe ml (NoneOf cs))"
  by (auto simp: charStep_def split: list.splits)

lemma charStep_AnyCh: "charStep (\<lambda>c. \<not> isLineTerminator c) (matchRe ml AnyCh)"
  by (auto simp: charStep_def split: list.splits)

lemma star_run:
  assumes f: "charStep P f"
    and r: "k (after s xs ys) = Some x"
    and xs: "list_all P xs"
    and ys: "ys = [] \<or> \<not> P (hd ys)"
    and s: "rest s = xs @ ys"
    and n: "length xs \<le> n"
  shows "star n f k s = Some x"
  using r xs s n
proof (induction xs arbitrary: s n)
  case Nil
  then have ks: "k s = Some x" by (simp add: after_def)
  have fail: "f k' s = None" for k'
    using f ys Nil.prems(3) by (cases ys) (auto simp: charStep_def)
  show ?case by (cases n) (simp_all add: ks fail)
next
  case (Cons c cs)
  from Cons.prems(4) obtain m where n: "n = Suc m" "length cs \<le> m" by (cases n) auto
  let ?s1 = "s\<lparr>prev := Some c, rest := cs @ ys\<rparr>"
  have a: "after ?s1 cs ys = after s (c # cs) ys" by (simp add: after_def)
  have "star m f k ?s1 = Some x"
    by (rule Cons.IH) (use Cons.prems n a in simp_all)
  moreover have "f k' s = k' ?s1" for k'
    using f Cons.prems(2,3) by (simp add: charStep_def)
  ultimately show ?case using Cons.prems(3) by (simp add: n)
qed

lemma matchRe_Star_run:
  assumes "charStep P (matchRe ml a)" and "k (after s xs ys) = Some x" and "list_all P xs"
    and "ys = [] \<or> \<not> P (hd ys)" and "rest s = xs @ ys"
  shows "matchRe ml (Star a) k s = Some x"
proof -
  have "star (length (rest s)) (matchRe ml a) k s = Some x"
    by (rule star_run [where P = P and xs = xs and ys = ys]) (use assms in simp_all)
  then show ?thesis by simp
qed

lemma matchRe_Plus_run:
  assumes f: "charStep P (matchRe ml a)" and r: "k (after s xs ys) = Some x" and xs: "list_all P xs"
    and ys: "ys = [] \<or> \<not> P (hd ys)" and s: "rest s = xs @ ys" and ne: "xs \<noteq> []"
  shows "matchRe ml (Plus a) k s = Some x"
proof -
  from ne obtain c cs where c: "xs = c # cs" by (cases xs) auto
  let ?s1 = "s\<lparr>prev := Some c, rest := cs @ ys\<rparr>"
  have a: "after ?s1 cs ys = after s xs ys" by (simp add: after_def c)
  have "matchRe ml (Star a) k ?s1 = Some x"
    by (rule matchRe_Star_run [OF f _ _ ys]) (use r xs a c in simp_all)
  moreover have "matchRe ml a k' s = k' ?s1" for k'
    using f xs s c by (simp add: charStep_def)
  ultimately show ?thesis by (simp add: Plus_def)
qed

subsection \<open>Patterns that match nowhere\<close>

lemma scan_None:
  assumes "\<And>pre suf. cs = pre @ suf \<Longrightarrow>
             matchRe ml r Some \<lparr>prev = (if pre = [] then p else Some (last pre)), rest = suf, caps = []\<rparr> = None"
  shows "scan ml r p cs = None"
  using assms
proof (induction cs arbitrary: p)
  case Nil
  from Nil [of "[]" "[]"] show ?case by simp
next
  case (Cons c cs)
  have here: "matchRe ml r Some \<lparr>prev = p, rest = c # cs, caps = []\<rparr> = None"
    using Cons.prems [of "[]" "c # cs"] by simp
  have "scan ml r (Some c) cs = None"
  proof (rule Cons.IH)
    fix pre suf
    assume "cs = pre @ suf"
    then have "c # cs = (c # pre) @ suf" by simp
    from Cons.prems [OF this]
    show "matchRe ml r Some \<lparr>prev = (if pre = [] then Some c else Some (last pre)), rest = suf, caps = []\<rparr> = None"
      by (simp split: if_splits)
  qed
  with here show ?case by simp
qed

lemma replaceWith_None:
  "scan ml r None s = None \<Longrightarrow> replaceWith ml r f st s = (s, st)"
  by (simp add: replaceWith_def start_def exec_def
      replaceLoop.simps [of ml r f st "\<lparr>prev = None, rest = s, caps = []\<rparr>"])

lemma replace_None: "scan ml r None s = None \<Longrightarrow> replace ml r f s = s"
  by (simp add: replace_def replaceWith_None)

lemma match_None: "scan False r None s = None \<Longrightarrow> match r s = None"
  by (simp add: match_def exec_def start_def)

lemma Lit_absent:
  assumes "c \<in> set w" and "c \<notin> set s"
  shows "scan ml (Seq (Lit w) r) None s = None"
proof (rule scan_None)
  fix pre suf
  assume "s = pre @ suf"
  with assms have "take (length w) suf \<noteq> w"
    by (metis Un_iff in_set_takeD set_append)
  then show "matchRe ml (Seq (Lit w) r) Some
               \<lparr>prev = (if pre = [] then None else Some (last pre)), rest = suf, caps = []\<rparr> = None"
    by simp
qed

lemma NotBehind_Lit_absent:
  assumes "c \<in> set w" and "c \<notin> set s"
  shows "scan ml (Seq (NotBehind cs) (Seq (Lit w) r)) None s = None"
proof (rule scan_None)
  fix pre suf
  assume "s = pre @ suf"
  with assms have "take (length w) suf \<noteq> w"
    by (metis Un_iff in_set_takeD set_append)
  then show "matchRe ml (Seq (NotBehind cs) (Seq (Lit w) r)) Some
               \<lparr>prev = (if pre = [] then None else Some (last pre)), rest = suf, caps = []\<rparr> = None"
    by (simp split: option.splits)
qed

lemma Bol_nowhere:
  assumes first: "matchRe ml r Some \<lparr>prev = None, rest = s, caps = []\<rparr> = None"
    and lines: "list_all (\<lambda>c. \<not> isLineTerminator c) s"
  shows "scan ml (Seq Bol r) None s = None"
proof (rule scan_None)
  fix pre suf
  assume s: "s = pre @ suf"
  show "matchRe ml (Seq Bol r) Some
          \<lparr>prev = (if pre = [] then None else Some (last pre)), rest = suf, caps = []\<rparr> = None"
  proof (cases "pre = []")
    case True
    with s first show ?thesis by simp
  next
    case False
    with s lines have "\<not> isLineTerminator (last pre)" by (simp add: list_all_iff)
    with False show ?thesis by simp
  qed
qed


subsection \<open>The heading pass on one heading line\<close>

lemma inClass_Space: "inClass [SpaceC] c = isSpace c"
  by (simp add: inClass_def)

lemma header_match:
  assumes ws: "ws \<noteq> []" "list_all isSpace ws"
    and body: "body \<noteq> []" "\<not> isSpace (hd body)" "list_all (\<lambda>c. \<not> isLineTerminator c) body"
  shows "matchRe True (headerRegex hashes) Some \<lparr>prev = None, rest = hashes @ ws @ body, caps = []\<rparr>
         = Some \<lparr>prev = Some (last body), rest = [], caps = [(1, body)]\<rparr>"
proof -
  let ?R4 = "Seq Eol (Lit [])"
  let ?R3 = "Seq (Group 1 (Plus AnyCh)) ?R4"
  let ?R2 = "Seq (Plus (OneOf [SpaceC])) ?R3"
  let ?s2 = "\<lparr>prev = Some (last ws), rest = body, caps = []\<rparr>"
  let ?s3 = "\<lparr>prev = Some (last body), rest = [], caps = []\<rparr>"
  let ?x = "\<lparr>prev = Some (last body), rest = [], caps = [(1, body)]\<rparr>"
  have r4: "matchRe True ?R4 Some ?x = Some ?x" by simp
  have a3: "after ?s2 body [] = ?s3" using body(1) by (simp add: after_def)
  have c3: "consumed ?s2 ?s3 = body" by (simp add: consumed_def)
  have r3: "matchRe True ?R3 Some ?s2 = Some ?x"
  proof -
    have "matchRe True (Plus AnyCh)
            (\<lambda>e. matchRe True ?R4 Some (e\<lparr>caps := (1, consumed ?s2 e) # caps e\<rparr>)) ?s2 = Some ?x"
      by (rule matchRe_Plus_run [OF charStep_AnyCh, where xs = body and ys = "[]"])
         (use body a3 c3 in simp_all)
    then show ?thesis by simp
  qed
  have a2: "after \<lparr>prev = p, rest = ws @ body, caps = []\<rparr> ws body = ?s2" for p
    using ws(1) by (simp add: after_def)
  have r2: "matchRe True (Plus (OneOf [SpaceC])) (matchRe True ?R3 Some)
              \<lparr>prev = p, rest = ws @ body, caps = []\<rparr> = Some ?x" for p
    by (rule matchRe_Plus_run [OF charStep_OneOf, where xs = ws and ys = body])
       (use ws body a2 r3 in \<open>simp_all add: inClass_Space list_all_iff\<close>)
  show ?thesis
    using r2 [of None] r2 [of "Some (last hashes)"]
    by (simp add: headerRegex_def Cat_Cons Cat_Nil del: One_nat_def)
qed

lemma scan_here:
  "matchRe ml r Some \<lparr>prev = p, rest = cs, caps = []\<rparr> = Some e \<Longrightarrow> scan ml r p cs = Some ([], e)"
  by (cases cs) simp_all

lemma header_at_end:
  "\<not> isLineTerminator c \<Longrightarrow> scan True (headerRegex hashes) (Some c) [] = None"
  by (simp add: headerRegex_def Cat_Cons)

lemma replaceWith_once:
  assumes ex: "exec ml r (start s) = Some m" and nonempty: "whole m \<noteq> []"
    and en: "exec ml r (tail m) = None" and fin: "rest (tail m) = []"
  shows "replaceWith ml r f st s = (skipped m @ fst (f st m), snd (f st m))"
proof -
  have tl: "replaceLoop ml r f st' (tail m) = ([], st')" for st'
    by (subst replaceLoop.simps) (simp add: en fin)
  show ?thesis
    unfolding replaceWith_def
    by (subst replaceLoop.simps) (simp add: ex nonempty tl split: prod.splits)
qed

lemma replace_once:
  assumes "exec ml r (start s) = Some m" and "whole m \<noteq> []"
    and "exec ml r (tail m) = None" and "rest (tail m) = []"
  shows "replace ml r f s = skipped m @ f m"
  by (simp add: replace_def replaceWith_once [OF assms])

lemma header_replace:
  assumes ws: "ws \<noteq> []" "list_all isSpace ws"
    and body: "body \<noteq> []" "\<not> isSpace (hd body)" "list_all (\<lambda>c. \<not> isLineTerminator c) body"
  shows "replace True (headerRegex hashes) (\<lambda>m. op @ sub m 1 @ cl) (hashes @ ws @ body) = op @ body @ cl"
proof -
  let ?md = "hashes @ ws @ body"
  let ?e = "\<lparr>prev = Some (last body), rest = [], caps = [(1, body)]\<rparr>"
  let ?m = "\<lparr>skipped = [], whole = ?md, groups = [(1, body)], tail = ?e\<rparr>"
  have "scan True (headerRegex hashes) None ?md = Some ([], ?e)"
    by (rule scan_here) (rule header_match [OF assms])
  then have ex: "exec True (headerRegex hashes) (start ?md) = Some ?m"
    by (simp add: exec_def start_def)
  have "\<not> isLineTerminator (last body)"
    using body(1,3) by (simp add: list_all_iff)
  then have en: "exec True (headerRegex hashes) (tail ?m) = None"
    by (simp add: exec_def header_at_end del: scan.simps)
  have "replace True (headerRegex hashes) (\<lambda>m. op @ sub m 1 @ cl) ?md
        = skipped ?m @ (op @ sub ?m 1 @ cl)"
    by (rule replace_once [OF ex _ en]) (use ws(1) in simp_all)
  then show ?thesis by (simp add: sub_def capture_def)
qed

lemma header_skip:
  assumes "take (length hashes) s \<noteq> hashes" and "list_all (\<lambda>c. \<not> isLineTerminator c) s"
  shows "replace True (headerRegex hashes) f s = s"
proof (rule replace_None)
  have "scan True (Seq Bol (Cat [Lit hashes, Plus (OneOf [SpaceC]), Group 1 (Plus AnyCh), Eol])) None s = None"
    by (rule Bol_nowhere) (use assms in \<open>simp_all add: Cat_Cons\<close>)
  then show "scan True (headerRegex hashes) None s = None"
    by (simp add: headerRegex_def Cat_Cons)
qed

definition inlineSpace :: "char \<Rightarrow> bool" where
  "inlineSpace c = (isSpace c \<and> \<not> isLineTerminator c)"

definition headingTag :: "nat \<Rightarrow> string" where
  "headingTag n = (if n = 1 then ''h3'' else ''h4'')"

lemma hash_facts: "\<not> isLineTerminator CHR ''#''" "\<not> isSpace CHR ''#''"
  "\<not> isLineTerminator CHR ''<''" "\<not> isSpace CHR ''<''"
  "\<not> isLineTerminator CHR ''>''" "\<not> isSpace CHR ''>''"
  "\<not> isLineTerminator CHR ''/''" "\<not> isLineTerminator CHR ''h''"
  "\<not> isLineTerminator CHR ''3''" "\<not> isLineTerminator CHR ''4''"
  by (simp_all add: isLineTerminator_def isSpace_def code_def)

lemma convertHeaders_line:
  assumes n: "1 \<le> n" "n \<le> 4"
    and ws: "ws \<noteq> []" "list_all inlineSpace ws"
    and body: "body \<noteq> []" "\<not> isSpace (hd body)" "list_all (\<lambda>c. \<not> isLineTerminator c) body"
  shows "convertHeaders (replicate n (CHR ''#'') @ ws @ body)
         = ''<'' @ headingTag n @ ''>'' @ body @ ''</'' @ headingTag n @ ''>''"
proof -
  let ?md = "replicate n (CHR ''#'') @ ws @ body"
  have sp: "list_all isSpace ws" and nl: "list_all (\<lambda>c. \<not> isLineTerminator c) ws"
    using ws(2) by (simp_all add: list_all_iff inlineSpace_def)
  have mdl: "list_all (\<lambda>c. \<not> isLineTerminator c) ?md"
    using nl body(3) by (auto simp: list_all_iff hash_facts)
  have hit: "replace True (headerRegex (replicate n (CHR ''#''))) (\<lambda>m. op @ sub m 1 @ cl) ?md = op @ body @ cl"
    for op cl
    by (rule header_replace [OF ws(1) sp body])
  have miss: "replace True (headerRegex (replicate k (CHR ''#''))) f ?md = ?md" if "n < k" for k f
  proof (rule header_skip [OF _ mdl])
    from ws obtain w ws' where w: "ws = w # ws'" "isSpace w" by (cases ws) (auto simp: inlineSpace_def)
    from that have "take k ?md ! n = w"
      by (simp add: nth_append w)
    moreover from that have "replicate k (CHR ''#'') ! n = CHR ''#''" by simp
    moreover from w have "w \<noteq> CHR ''#''" using hash_facts by auto
    ultimately show "take (length (replicate k (CHR ''#''))) ?md \<noteq> replicate k (CHR ''#'')"
      by (metis length_replicate)
  qed
  have conv: "replace True (headerRegex (replicate k (CHR ''#''))) f (''<'' @ tg @ ''>'' @ body @ ''</'' @ tg @ ''>'')
              = ''<'' @ tg @ ''>'' @ body @ ''</'' @ tg @ ''>''"
    if "0 < k" "tg = ''h3'' \<or> tg = ''h4''" for k f tg
  proof (rule header_skip)
    from that(1) show "take (length (replicate k (CHR ''#''))) (''<'' @ tg @ ''>'' @ body @ ''</'' @ tg @ ''>'')
        \<noteq> replicate k (CHR ''#'')"
      by (cases k) simp_all
    from that(2) body(3) show "list_all (\<lambda>c. \<not> isLineTerminator c) (''<'' @ tg @ ''>'' @ body @ ''</'' @ tg @ ''>'')"
      by (auto simp: hash_facts)
  qed
  have skip: "replace True (headerRegex hs) f ?md = ?md"
    if "hs = replicate k (CHR ''#'')" "n < k" for hs k f
    using miss [OF that(2)] that(1) by simp
  have same: "replace True (headerRegex hs) f (''<h4>'' @ body @ ''</h4>'') = ''<h4>'' @ body @ ''</h4>''"
    if "hs = replicate k (CHR ''#'')" "0 < k" for hs k f
    using conv [where k = k and tg = "''h4''" and f = f] that by simp
  have r4: "''####'' = replicate 4 (CHR ''#'')" and r3: "''###'' = replicate 3 (CHR ''#'')"
    and r2: "''##'' = replicate 2 (CHR ''#'')" and r1: "''#'' = replicate 1 (CHR ''#'')"
    by (simp_all add: numeral_eq_Suc)
  from n consider "n = 1" | "n = 2" | "n = 3" | "n = 4" by linarith
  then show ?thesis
  proof cases
    case 1
    have a: "replace True (headerRegex ''####'') f ?md = ?md"
      and b: "replace True (headerRegex ''###'') f ?md = ?md"
      and c: "replace True (headerRegex ''##'') f ?md = ?md" for f
      by (rule skip [OF r4], simp add: 1, rule skip [OF r3], simp add: 1, rule skip [OF r2], simp add: 1)
    have d: "replace True (headerRegex ''#'') (\<lambda>m. ''<h3>'' @ sub m 1 @ ''</h3>'') ?md = ''<h3>'' @ body @ ''</h3>''"
      using hit [where op = "''<h3>''" and cl = "''</h3>''"] 1 by simp
    show ?thesis unfolding convertHeaders_def Let_def a b c d using 1 by (simp add: headingTag_def)
  next
    case 2
    have a: "replace True (headerRegex ''####'') f ?md = ?md"
      and b: "replace True (headerRegex ''###'') f ?md = ?md" for f
      by (rule skip [OF r4], simp add: 2, rule skip [OF r3], simp add: 2)
    have c: "replace True (headerRegex ''##'') (\<lambda>m. ''<h4>'' @ sub m 1 @ ''</h4>'') ?md = ''<h4>'' @ body @ ''</h4>''"
      using hit [where op = "''<h4>''" and cl = "''</h4>''"] 2 r2 by simp
    have d: "replace True (headerRegex ''#'') f (''<h4>'' @ body @ ''</h4>'') = ''<h4>'' @ body @ ''</h4>''" for f
      by (rule same [OF r1]) simp
    show ?thesis unfolding convertHeaders_def Let_def a b c d using 2 by (simp add: headingTag_def)
  next
    case 3
    have a: "replace True (headerRegex ''####'') f ?md = ?md" for f
      by (rule skip [OF r4], simp add: 3)
    have b: "replace True (headerRegex ''###'') (\<lambda>m. ''<h4>'' @ sub m 1 @ ''</h4>'') ?md = ''<h4>'' @ body @ ''</h4>''"
      using hit [where op = "''<h4>''" and cl = "''</h4>''"] 3 r3 by simp
    have c: "replace True (headerRegex ''##'') f (''<h4>'' @ body @ ''</h4>'') = ''<h4>'' @ body @ ''</h4>''"
      and d: "replace True (headerRegex ''#'') f (''<h4>'' @ body @ ''</h4>'') = ''<h4>'' @ body @ ''</h4>''" for f
      by (rule same [OF r2], simp, rule same [OF r1], simp)
    show ?thesis unfolding convertHeaders_def Let_def a b c d using 3 by (simp add: headingTag_def)
  next
    case 4
    have a: "replace True (headerRegex ''####'') (\<lambda>m. ''<h4>'' @ sub m 1 @ ''</h4>'') ?md = ''<h4>'' @ body @ ''</h4>''"
      using hit [where op = "''<h4>''" and cl = "''</h4>''"] 4 r4 by simp
    have b: "replace True (headerRegex ''###'') f (''<h4>'' @ body @ ''</h4>'') = ''<h4>'' @ body @ ''</h4>''"
      and c: "replace True (headerRegex ''##'') f (''<h4>'' @ body @ ''</h4>'') = ''<h4>'' @ body @ ''</h4>''"
      and d: "replace True (headerRegex ''#'') f (''<h4>'' @ body @ ''</h4>'') = ''<h4>'' @ body @ ''</h4>''" for f
      by (rule same [OF r3], simp, rule same [OF r2], simp, rule same [OF r1], simp)
    show ?thesis unfolding convertHeaders_def Let_def a b c d using 4 by (simp add: headingTag_def)
  qed
qed



subsection \<open>The other passes on a line without Markdown syntax\<close>

definition plainChar :: "char \<Rightarrow> bool" where
  "plainChar c =
     (\<not> isLineTerminator c \<and> c \<notin> {CHR 0x60, CHR ''*'', CHR ''_'', CHR ''['', CHR ''<''})"

lemma split_single: "sep \<notin> set s \<Longrightarrow> split sep s = [s]"
  by (induction s) auto

lemma convertList_single:
  assumes "CHR 0x0A \<notin> set s" and "match r s = None"
  shows "convertList r tg s = s"
  using assms by (simp add: convertList_def split_single listStep_def)

lemma splitLoop_single:
  "CHR 0x0A \<notin> set (rest st) \<Longrightarrow> splitLoop paragraphBreak acc st = [acc @ rest st]"
proof (induction "rest st" arbitrary: acc st)
  case Nil
  then show ?case by (subst splitLoop.simps) simp
next
  case (Cons c cs)
  from Cons.hyps(2) Cons.prems have c: "c \<noteq> CHR 0x0A" by (metis list.set_intros(1))
  have fail: "matchRe False paragraphBreak Some (st\<lparr>caps := []\<rparr>) = None"
    using Cons.hyps(2) [symmetric] c by (simp add: paragraphBreak_def Cat_Cons)
  have "splitLoop paragraphBreak (acc @ [c]) (st\<lparr>prev := Some c, rest := cs\<rparr>) = [(acc @ [c]) @ cs]"
    using Cons.hyps(1) [of "st\<lparr>prev := Some c, rest := cs\<rparr>" "acc @ [c]"] Cons.hyps(2) [symmetric] Cons.prems
    by simp
  then show ?case
    using Cons.hyps(2) [symmetric] fail by (subst splitLoop.simps) simp
qed

lemma splitRe_single:
  "s \<noteq> [] \<Longrightarrow> CHR 0x0A \<notin> set s \<Longrightarrow> splitRe paragraphBreak s = [s]"
  by (simp add: splitRe_def start_def splitLoop_single)

lemma trim_id: "s \<noteq> [] \<Longrightarrow> \<not> isSpace (hd s) \<Longrightarrow> \<not> isSpace (last s) \<Longrightarrow> trim s = s"
proof -
  assume s: "s \<noteq> []" "\<not> isSpace (hd s)" "\<not> isSpace (last s)"
  then have "dropWhile isSpace s = s" by (cases s) simp_all
  moreover from s have "dropWhile isSpace (rev s) = rev s"
    by (cases "rev s") (simp_all add: last_rev [symmetric] hd_rev)
  ultimately show ?thesis by (simp add: trim_def)
qed

lemma wrapParagraph_element:
  assumes "hd s = CHR ''<''" and "last s = CHR ''>''" and "s \<noteq> []"
  shows "wrapParagraph s = s"
proof -
  have "trim s = s" using assms by (simp add: trim_id hash_facts)
  moreover from assms have "take 1 s = ''<''" by (cases s) simp_all
  moreover from assms have "take 1 (rev s) = ''>''" by (cases "rev s") (simp_all add: hd_rev [symmetric])
  ultimately show ?thesis by (simp add: wrapParagraph_def)
qed

lemma element_line_passes:
  assumes lines: "list_all (\<lambda>c. \<not> isLineTerminator c) s"
    and none: "CHR 0x60 \<notin> set s" "CHR ''*'' \<notin> set s" "CHR ''_'' \<notin> set s" "CHR ''['' \<notin> set s"
    and shape: "hd s = CHR ''<''" "last s = CHR ''>''" "s \<noteq> []"
  shows "replace True hrRegex f s = s"
    and "replace False imageRegex f s = s"
    and "replace False linkRegex f s = s"
    and "replace False boldStarRegex f s = s"
    and "replace False boldUnderRegex f s = s"
    and "replace False italicStarRegex f s = s"
    and "replace False italicUnderRegex f s = s"
    and "replace True blockquoteRegex f s = s"
    and "convertList ulRegex tg s = s"
    and "convertList olRegex tg s = s"
    and "replace False codeBlockPlaceholder f s = s"
    and "replace False inlineCodePlaceholder f s = s"
    and "splitRe paragraphBreak s = [s]"
    and "wrapParagraph s = s"
proof -
  from shape obtain t where s: "s = CHR ''<'' # t" by (cases s) auto
  have nl: "CHR 0x0A \<notin> set s"
    using lines by (auto simp: list_all_iff isLineTerminator_def code_def)
  show "replace True hrRegex f s = s"
    unfolding hrRegex_def Cat_Cons
    by (rule replace_None, rule Bol_nowhere [OF _ lines]) (simp add: s)
  show "replace False imageRegex f s = s"
    unfolding imageRegex_def Cat_Cons
    by (rule replace_None, rule Lit_absent [where c = "CHR ''[''"]) (use none in simp_all)
  show "replace False linkRegex f s = s"
    unfolding linkRegex_def Cat_Cons
    by (rule replace_None, rule Lit_absent [where c = "CHR ''[''"]) (use none in simp_all)
  show "replace False boldStarRegex f s = s"
    unfolding boldStarRegex_def Cat_Cons
    by (rule replace_None, rule Lit_absent [where c = "CHR ''*''"]) (use none in simp_all)
  show "replace False boldUnderRegex f s = s"
    unfolding boldUnderRegex_def Cat_Cons
    by (rule replace_None, rule Lit_absent [where c = "CHR ''_''"]) (use none in simp_all)
  show "replace False italicStarRegex f s = s"
    unfolding italicStarRegex_def Cat_Cons
    by (rule replace_None, rule NotBehind_Lit_absent [where c = "CHR ''*''"]) (use none in simp_all)
  show "replace False italicUnderRegex f s = s"
    unfolding italicUnderRegex_def Cat_Cons
    by (rule replace_None, rule NotBehind_Lit_absent [where c = "CHR ''_''"]) (use none in simp_all)
  show "replace True blockquoteRegex f s = s"
    unfolding blockquoteRegex_def Cat_Cons
    by (rule replace_None, rule Bol_nowhere [OF _ lines]) (simp add: s)
  show "convertList ulRegex tg s = s"
  proof (rule convertList_single [OF nl], rule match_None)
    show "scan False ulRegex None s = None"
      unfolding ulRegex_def Cat_Cons
      by (rule Bol_nowhere [OF _ lines]) (simp add: s inClass_def)
  qed
  show "convertList olRegex tg s = s"
  proof (rule convertList_single [OF nl], rule match_None)
    show "scan False olRegex None s = None"
      unfolding olRegex_def Cat_Cons
      by (rule Bol_nowhere [OF _ lines]) (simp add: s inClass_def Plus_def isDigit_def code_def)
  qed
  show "replace False codeBlockPlaceholder f s = s"
    unfolding codeBlockPlaceholder_def Cat_Cons
    by (rule replace_None, rule Lit_absent [where c = "CHR ''_''"]) (use none in simp_all)
  show "replace False inlineCodePlaceholder f s = s"
    unfolding inlineCodePlaceholder_def Cat_Cons
    by (rule replace_None, rule Lit_absent [where c = "CHR ''_''"]) (use none in simp_all)
  show "splitRe paragraphBreak s = [s]"
    using shape(3) nl by (rule splitRe_single)
  show "wrapParagraph s = s"
    using shape by (rule wrapParagraph_element)
qed

lemma no_code:
  assumes "CHR 0x60 \<notin> set s"
  shows "extractCodeBlocks s = (s, Inr [])" and "extractInlineCodes s = (s, [])"
proof -
  show "extractCodeBlocks s = (s, Inr [])"
    unfolding extractCodeBlocks_def codeBlockRegex_def Cat_Cons
    by (rule replaceWith_None, rule Lit_absent [where c = "CHR 0x60"]) (use assms in simp_all)
  show "extractInlineCodes s = (s, [])"
    unfolding extractInlineCodes_def inlineCodeRegex_def Cat_Cons
    by (rule replaceWith_None, rule Lit_absent [where c = "CHR 0x60"]) (use assms in simp_all)
qed

lemma markdownToHtml_heading:
  assumes n: "1 \<le> n" "n \<le> 4"
    and ws: "ws \<noteq> []" "list_all inlineSpace ws"
    and body: "body \<noteq> []" "\<not> isSpace (hd body)" "list_all plainChar body"
  shows "markdownToHtml (replicate n (CHR ''#'') @ ws @ body)
         = Inr (''<'' @ headingTag n @ ''>'' @ body @ ''</'' @ headingTag n @ ''>'')"
proof -
  define md where "md = replicate n (CHR ''#'') @ ws @ body"
  define h where "h = ''<'' @ headingTag n @ ''>'' @ body @ ''</'' @ headingTag n @ ''>''"
  have bl: "list_all (\<lambda>c. \<not> isLineTerminator c) body"
    using body(3) by (simp add: list_all_iff plainChar_def)
  have wsn: "\<forall>c\<in>set ws. c \<noteq> CHR 0x60"
    using ws(2) by (auto simp: list_all_iff inlineSpace_def isSpace_def code_def)
  have tick: "CHR 0x60 \<notin> set md"
    using body(3) wsn by (auto simp: md_def list_all_iff plainChar_def)
  have heads: "convertHeaders md = h"
    unfolding md_def h_def by (rule convertHeaders_line [OF n ws body(1,2) bl])
  have tg: "headingTag n = ''h3'' \<or> headingTag n = ''h4''" by (simp add: headingTag_def)
  have hl: "list_all (\<lambda>c. \<not> isLineTerminator c) h"
    using tg bl by (auto simp: h_def hash_facts)
  have bn: "CHR 0x60 \<notin> set body" "CHR ''*'' \<notin> set body" "CHR ''_'' \<notin> set body"
    "CHR ''['' \<notin> set body"
    using body(3) by (auto simp: list_all_iff plainChar_def)
  have sh: "set h = set (''<>/'' @ headingTag n) \<union> set body"
    by (auto simp: h_def)
  have hn: "CHR 0x60 \<notin> set h" "CHR ''*'' \<notin> set h" "CHR ''_'' \<notin> set h" "CHR ''['' \<notin> set h"
    unfolding sh using bn by (simp_all add: headingTag_def)
  have hs: "hd h = CHR ''<''" "last h = CHR ''>''" "h \<noteq> []"
    by (simp_all add: h_def)
  note ps = element_line_passes [OF hl hn hs]
  have "markdownToHtml md = Inr h"
    unfolding markdownToHtml_def rewritePasses_def Let_def
    by (simp add: no_code [OF tick] heads ps hs(3))
  then show ?thesis by (simp add: md_def h_def)
qed



subsection \<open>Tokens of well-formed tags and text runs\<close>

definition nameChar :: "char \<Rightarrow> bool" where
  "nameChar c = inClass [WordC, Ch CHR ''-''] c"

lemma open_tag_match:
  assumes tn: "tn \<noteq> []" "list_all nameChar tn"
    and ats: "list_all (\<lambda>c. c \<noteq> CHR ''>'') ats" "ats = [] \<or> \<not> nameChar (hd ats)"
  shows "matchRe ml tagRegex Some \<lparr>prev = p, rest = ''<'' @ tn @ ats @ ''>'' @ t, caps = []\<rparr>
         = Some \<lparr>prev = Some CHR ''>'', rest = t, caps = [(3, ats), (2, tn), (1, [])]\<rparr>"
proof -
  let ?N = "NoneOf [Ch CHR ''>'']"
  let ?W = "OneOf [WordC, Ch CHR ''-'']"
  let ?R5 = "Seq (Lit ''>'') (Lit [])"
  let ?R4 = "Seq (Group 3 (Star ?N)) ?R5"
  let ?x = "\<lparr>prev = Some CHR ''>'', rest = t, caps = [(3, ats), (2, tn), (1, [])]\<rparr>"
  let ?s1 = "\<lparr>prev = Some CHR ''<'', rest = tn @ ats @ ''>'' @ t, caps = [(1, [])]\<rparr>"
  let ?s2 = "\<lparr>prev = Some (last tn), rest = ats @ ''>'' @ t, caps = [(2, tn), (1, [])]\<rparr>"
  let ?s2' = "\<lparr>prev = Some (last tn), rest = ats @ ''>'' @ t, caps = [(1, [])]\<rparr>"
  let ?s3 = "after ?s2 ats (''>'' @ t)"
  have c3: "consumed ?s2 ?s3 = ats" by (simp add: consumed_def after_def)
  have r5: "matchRe ml ?R5 Some (?s3\<lparr>caps := (3, ats) # caps ?s3\<rparr>) = Some ?x"
    by (simp add: after_def)
  have r4: "matchRe ml ?R4 Some ?s2 = Some ?x"
  proof -
    have "matchRe ml (Star ?N) (\<lambda>e. matchRe ml ?R5 Some (e\<lparr>caps := (3, consumed ?s2 e) # caps e\<rparr>)) ?s2
          = Some ?x"
      by (rule matchRe_Star_run [OF charStep_NoneOf, where xs = ats and ys = "''>'' @ t"])
         (use ats r5 c3 in \<open>simp_all add: inClass_def list_all_iff\<close>)
    then show ?thesis by simp
  qed
  have a2: "after ?s1 tn (ats @ ''>'' @ t) = ?s2'" using tn(1) by (simp add: after_def)
  have c2: "consumed ?s1 ?s2' = tn" by (simp add: consumed_def)
  have stop: "ats @ ''>'' @ t = [] \<or> \<not> inClass [WordC, Ch CHR ''-''] (hd (ats @ ''>'' @ t))"
    using ats(2) by (cases ats) (simp_all add: nameChar_def, simp add: inClass_def isWord_def code_def)
  have r3: "matchRe ml (Plus ?W) (\<lambda>e. matchRe ml ?R4 Some (e\<lparr>caps := (2, consumed ?s1 e) # caps e\<rparr>)) ?s1
            = Some ?x"
    by (rule matchRe_Plus_run [OF charStep_OneOf, where xs = tn and ys = "ats @ ''>'' @ t"])
       (use tn a2 c2 r4 stop in \<open>simp_all add: nameChar_def list_all_iff\<close>)
  from tn obtain c cs where c: "tn = c # cs" "nameChar c" by (cases tn) auto
  then have slash: "c \<noteq> CHR ''/''" by (auto simp: nameChar_def inClass_def isWord_def code_def)
  show ?thesis
    using r3 slash
    by (simp add: tagRegex_def Cat_Cons Cat_Nil Opt_def consumed_def c(1) del: One_nat_def)
qed


lemma close_tag_match:
  assumes tn: "tn \<noteq> []" "list_all nameChar tn"
    and ats: "list_all (\<lambda>c. c \<noteq> CHR ''>'') ats" "ats = [] \<or> \<not> nameChar (hd ats)"
  shows "matchRe ml tagRegex Some \<lparr>prev = p, rest = ''</'' @ tn @ ats @ ''>'' @ t, caps = []\<rparr>
         = Some \<lparr>prev = Some CHR ''>'', rest = t, caps = [(3, ats), (2, tn), (1, ''/'')]\<rparr>"
proof -
  let ?N = "NoneOf [Ch CHR ''>'']"
  let ?W = "OneOf [WordC, Ch CHR ''-'']"
  let ?R5 = "Seq (Lit ''>'') (Lit [])"
  let ?R4 = "Seq (Group 3 (Star ?N)) ?R5"
  let ?x = "\<lparr>prev = Some CHR ''>'', rest = t, caps = [(3, ats), (2, tn), (1, ''/'')]\<rparr>"
  let ?s1 = "\<lparr>prev = Some CHR ''/'', rest = tn @ ats @ ''>'' @ t, caps = [(1, ''/'')]\<rparr>"
  let ?s2 = "\<lparr>prev = Some (last tn), rest = ats @ ''>'' @ t, caps = [(2, tn), (1, ''/'')]\<rparr>"
  let ?s2' = "\<lparr>prev = Some (last tn), rest = ats @ ''>'' @ t, caps = [(1, ''/'')]\<rparr>"
  let ?s3 = "after ?s2 ats (''>'' @ t)"
  have c3: "consumed ?s2 ?s3 = ats" by (simp add: consumed_def after_def)
  have r5: "matchRe ml ?R5 Some (?s3\<lparr>caps := (3, ats) # caps ?s3\<rparr>) = Some ?x"
    by (simp add: after_def)
  have r4: "matchRe ml ?R4 Some ?s2 = Some ?x"
  proof -
    have "matchRe ml (Star ?N) (\<lambda>e. matchRe ml ?R5 Some (e\<lparr>caps := (3, consumed ?s2 e) # caps e\<rparr>)) ?s2
          = Some ?x"
      by (rule matchRe_Star_run [OF charStep_NoneOf, where xs = ats and ys = "''>'' @ t"])
         (use ats r5 c3 in \<open>simp_all add: inClass_def list_all_iff\<close>)
    then show ?thesis by simp
  qed
  have a2: "after ?s1 tn (ats @ ''>'' @ t) = ?s2'" using tn(1) by (simp add: after_def)
  have c2: "consumed ?s1 ?s2' = tn" by (simp add: consumed_def)
  have stop: "ats @ ''>'' @ t = [] \<or> \<not> inClass [WordC, Ch CHR ''-''] (hd (ats @ ''>'' @ t))"
    using ats(2) by (cases ats) (simp_all add: nameChar_def, simp add: inClass_def isWord_def code_def)
  have r3: "matchRe ml (Plus ?W) (\<lambda>e. matchRe ml ?R4 Some (e\<lparr>caps := (2, consumed ?s1 e) # caps e\<rparr>)) ?s1
            = Some ?x"
    by (rule matchRe_Plus_run [OF charStep_OneOf, where xs = tn and ys = "ats @ ''>'' @ t"])
       (use tn a2 c2 r4 stop in \<open>simp_all add: nameChar_def list_all_iff\<close>)
  show ?thesis
    using r3
    by (simp add: tagRegex_def Cat_Cons Cat_Nil Opt_def consumed_def del: One_nat_def)
qed

lemma text_run_match:
  assumes run: "tx \<noteq> []" "list_all (\<lambda>c. c \<noteq> CHR ''<'') tx"
    and t: "t = [] \<or> hd t = CHR ''<''"
  shows "matchRe ml tagRegex Some \<lparr>prev = p, rest = tx @ t, caps = []\<rparr>
         = Some \<lparr>prev = Some (last tx), rest = t, caps = [(4, tx)]\<rparr>"
proof -
  let ?s = "\<lparr>prev = p, rest = tx @ t, caps = []\<rparr>"
  let ?e = "\<lparr>prev = Some (last tx), rest = t, caps = []\<rparr>"
  let ?x = "\<lparr>prev = Some (last tx), rest = t, caps = [(4, tx)]\<rparr>"
  from run obtain c cs where c: "tx = c # cs" "c \<noteq> CHR ''<''" by (cases tx) auto
  have a: "after ?s tx t = ?e" using run(1) by (simp add: after_def)
  have cn: "consumed ?s ?e = tx" by (simp add: consumed_def)
  have r: "matchRe ml (Plus (NoneOf [Ch CHR ''<''])) (\<lambda>e. Some (e\<lparr>caps := (4, consumed ?s e) # caps e\<rparr>)) ?s
           = Some ?x"
    by (rule matchRe_Plus_run [OF charStep_NoneOf, where xs = tx and ys = t])
       (use run t a cn in \<open>auto simp: inClass_def list_all_iff\<close>)
  show ?thesis
    using r c(2) by (simp add: tagRegex_def Cat_Cons Cat_Nil c(1) del: One_nat_def)
qed

lemma exec_token:
  assumes "matchRe ml r Some \<lparr>prev = prev s, rest = tok @ t, caps = []\<rparr> = Some e"
    and "rest s = tok @ t" and "rest e = t"
  shows "exec ml r s = Some \<lparr>skipped = [], whole = tok, groups = caps e, tail = e\<rparr>"
  using scan_here [OF assms(1)] assms(2,3) by (simp add: exec_def)

lemma execLoop_step:
  assumes "exec ml r s = Some m" and "length (rest (tail m)) < length (rest s)"
    and "execLoop ml r (tail m) = Inr ms"
  shows "execLoop ml r s = Inr (m # ms)"
  by (subst execLoop.simps) (simp add: assms)

lemma execLoop_end: "rest s = [] \<Longrightarrow> execLoop ml tagRegex s = Inr []"
  by (subst execLoop.simps) (simp add: exec_def tagRegex_def Cat_Cons Plus_def)

lemma element_tokens:
  assumes tn: "tn \<noteq> []" "list_all nameChar tn"
    and run: "tx \<noteq> []" "list_all (\<lambda>c. c \<noteq> CHR ''<'') tx"
  shows "\<exists>m1 m2 m3. execLoop False tagRegex (start (''<'' @ tn @ ''>'' @ tx @ ''</'' @ tn @ ''>''))
           = Inr [m1, m2, m3]
         \<and> groups m1 = [(3, []), (2, tn), (1, [])]
         \<and> groups m2 = [(4, tx)]
         \<and> groups m3 = [(3, []), (2, tn), (1, ''/'')]"
proof -
  let ?t2 = "''</'' @ tn @ ''>''"
  let ?t1 = "tx @ ?t2"
  let ?e1 = "\<lparr>prev = Some CHR ''>'', rest = ?t1, caps = [(3, []), (2, tn), (1, [])]\<rparr>"
  let ?e2 = "\<lparr>prev = Some (last tx), rest = ?t2, caps = [(4, tx)]\<rparr>"
  let ?e3 = "\<lparr>prev = Some CHR ''>'', rest = [], caps = [(3, []), (2, tn), (1, ''/'')]\<rparr>"
  let ?m1 = "\<lparr>skipped = [], whole = ''<'' @ tn @ ''>'', groups = caps ?e1, tail = ?e1\<rparr>"
  let ?m2 = "\<lparr>skipped = [], whole = tx, groups = caps ?e2, tail = ?e2\<rparr>"
  let ?m3 = "\<lparr>skipped = [], whole = ?t2, groups = caps ?e3, tail = ?e3\<rparr>"
  have x1: "exec False tagRegex (start (''<'' @ tn @ ''>'' @ ?t1)) = Some ?m1"
    by (rule exec_token [where t = ?t1])
       (use open_tag_match [OF tn, where ats = "[]" and t = ?t1 and p = None] in \<open>simp_all add: start_def\<close>)
  have x2: "exec False tagRegex ?e1 = Some ?m2"
    by (rule exec_token [where t = ?t2])
       (use text_run_match [OF run, where t = ?t2] in simp_all)
  have x3: "exec False tagRegex ?e2 = Some ?m3"
    by (rule exec_token [where t = "[]"])
       (use close_tag_match [OF tn, where ats = "[]" and t = "[]"] in simp_all)
  have l3: "execLoop False tagRegex ?e2 = Inr [?m3]"
    by (rule execLoop_step [OF x3]) (simp_all add: execLoop_end)
  have l2: "execLoop False tagRegex ?e1 = Inr [?m2, ?m3]"
    by (rule execLoop_step [OF x2]) (use run(1) l3 in simp_all)
  have l1: "execLoop False tagRegex (start (''<'' @ tn @ ''>'' @ ?t1)) = Inr [?m1, ?m2, ?m3]"
    by (rule execLoop_step [OF x1]) (use l2 in \<open>simp_all add: start_def\<close>)
  show ?thesis
    by (intro exI [of _ ?m1] exI [of _ ?m2] exI [of _ ?m3]) (use l1 in simp)
qed

lemma heading_events:
  assumes tg: "tg = ''h3'' \<or> tg = ''h4''"
    and body: "body \<noteq> []" "list_all (\<lambda>c. c \<noteq> CHR ''<'') body"
  shows "events (''<'' @ tg @ ''>'' @ body @ ''</'' @ tg @ ''>'') = Inr [OpenEv tg [], TextEv body, CloseEv]"
proof -
  have nm: "tg \<noteq> []" "list_all nameChar tg"
    using tg by (auto simp: nameChar_def inClass_def isWord_def code_def)
  from element_tokens [OF nm body] obtain m1 m2 m3 where
    tk: "tokens (''<'' @ tg @ ''>'' @ body @ ''</'' @ tg @ ''>'') = Inr [m1, m2, m3]"
    and g: "groups m1 = [(3, []), (2, tg), (1, [])]" "groups m2 = [(4, body)]"
      "groups m3 = [(3, []), (2, tg), (1, ''/'')]"
    unfolding tokens_def by blast
  have pa: "parseAttrs [] = Inr []" by code_simp
  have lc: "toLowerCase tg = tg" using tg by (auto simp: toLowerCase_def isUpper_def code_def)
  have vd: "tg \<notin> set [''br'', ''hr'', ''img'']" using tg by auto
  have e1: "eventH m1 = Inr (OpenEv tg [])"
    using nm(1) vd by (simp add: eventH_def tagEvent_def openEvent_def capture_def truthy_def g pa lc includesChar_def)
  have e2: "eventH m2 = Inr (TextEv body)"
    using body(1) by (simp add: eventH_def capture_def truthy_def g)
  have e3: "eventH m3 = Inr CloseEv"
    using nm(1) by (simp add: eventH_def tagEvent_def capture_def truthy_def g)
  show ?thesis unfolding events_def tk by (simp add: e1 e2 e3)
qed

lemma heading_tree:
  assumes "tg = ''h3'' \<or> tg = ''h4''" and "body \<noteq> []" and "list_all (\<lambda>c. c \<noteq> CHR ''<'') body"
  shows "htmlToNodes (''<'' @ tg @ ''>'' @ body @ ''</'' @ tg @ ''>'')
         = Inr [Elem (NodeElement tg None (Some [Text body]))]"
  by (subst htmlToNodes_build [OF heading_events [OF assms]])
    (simp add: build_def closeTag_def push_def element_def unwind_empty)

section \<open>Lenient parsing\<close>

subsection \<open>Markup that is not a tag\<close>










subsection \<open>Attribute text without a quoted value\<close>




subsection \<open>Tags without a partner\<close>








end
